theory Spec2Isabelle
  imports Main "HOL-Library.Char_ord" "HOL-Library.List_Lexorder"
begin

section \<open>The library manager of lib\_manager (LibManager.h, LibManager.cpp)\<close>

text \<open>
  The class \<open>LibManager\<close> keeps a \<open>std::map<std::string, libStruct>\<close> of the loaded
  libraries, counts their users and calls back into the libraries. Its member functions
  are embedded as functions on an explicit state: the map, and the sequence of calls the
  manager has made on library objects so far. A member function returns normally, throws
  \<open>std::runtime_error\<close>, or has undefined behaviour (a null pointer dereferenced, a
  call through a null function pointer, \<open>int\<close> overflow); each is a value of
  \<open>outcome\<close>. The callbacks of a library (\<open>createModuleInfo\<close>, \<open>newLibLoaded\<close>, the
  destroy function, the factory) are taken not to call back into the manager while a
  member function runs.
\<close>

subsection \<open>Data\<close>

text \<open>
  Modelled from the spec: LibInterface.h is not part of the sources. A library object
  is known to the manager by its address and by the name \<open>getLibName()\<close> reports
  (the spec's \<open>getName() -> string\<close>); \<open>destroyLib\<close>, \<open>createLib\<close> and \<open>createLib2\<close> are the
  function types of the entry points \<open>destroy_c\<close>, \<open>create_c\<close> and \<open>config_create_c\<close>.
  A destroy function is known by its address. A factory is known by the pointer it
  returns (\<open>None\<close> is the null pointer); \<open>createLib2\<close> also takes the non-null
  configuration pointer.
\<close>

datatype LibInterface = LibInterface (addr: nat) (getLibName: string)

type_synonym destroyLib = nat
type_synonym config = nat
type_synonym createLib = "LibInterface option"
type_synonym createLib2 = "config \<Rightarrow> LibInterface option"

text \<open>\<open>struct libStruct\<close>; a pointer is an option, \<open>None\<close> for \<open>NULL\<close>.\<close>

record libStruct =
  libInterface :: "LibInterface option"
  destroy :: "destroyLib option"
  useCount :: int
  wasUnloaded :: bool
  path :: string

text \<open>The constructor \<open>libStruct(LibInterface *i)\<close>.\<close>

definition libStruct_of :: "LibInterface option \<Rightarrow> libStruct" where
  "libStruct_of i =
     \<lparr>libInterface = i, destroy = None, useCount = 1, wasUnloaded = False, path = []\<rparr>"

text \<open>\<open>useCount\<close> is an \<open>int\<close>: 32 bits on the platforms the source names.\<close>

definition INT_MAX :: int where
  "INT_MAX = 2147483647"

definition INT_MIN :: int where
  "INT_MIN = - 2147483648"

datatype ErrorNumber =
    LIBMGR_NO_ERROR
  | LIBMGR_ERR_NO_LIBRARY
  | LIBMGR_ERR_LIBNAME_EXISTS
  | LIBMGR_ERR_NOT_ABLE_TO_LOAD
  | LIBMGR_ERR_LIB_IN_USE
  | LIBMGR_NUM_ERRORS

text \<open>The calls the manager makes on library objects, in the order it makes them.\<close>

datatype call =
    CreateModuleInfo LibInterface
  | NewLibLoaded LibInterface string
  | Destroy destroyLib "LibInterface option"

text \<open>
  \<open>std::map\<close> keeps its entries ordered by key (\<open>std::string\<close> compares bytes
  lexicographically) and iterates in that order: an association list in key order.
\<close>

type_synonym libMapT = "(string \<times> libStruct) list"

record state =
  libMap :: libMapT
  calls :: "call list"

datatype 'a outcome =
    Returns 'a state
  | Throws state
  | Undefined

text \<open>The constructor \<open>LibManager()\<close> leaves the map empty.\<close>

definition LibManager :: state where
  "LibManager = \<lparr>libMap = [], calls = []\<rparr>"

subsection \<open>The operations of std::map the manager uses\<close>

text \<open>\<open>libMap.find(k)\<close>: \<open>None\<close> for \<open>libMap.end()\<close>.\<close>

definition map_find :: "string \<Rightarrow> libMapT \<Rightarrow> libStruct option" where
  "map_find k m = map_of m k"

text \<open>\<open>libMap[k] = v\<close>.\<close>

fun map_assign :: "string \<Rightarrow> libStruct \<Rightarrow> libMapT \<Rightarrow> libMapT" where
  "map_assign k v [] = [(k, v)]"
| "map_assign k v ((k', v') # m) =
     (if k = k' then (k, v) # m
      else if k < k' then (k, v) # (k', v') # m
      else (k', v') # map_assign k v m)"

text \<open>A write through the reference \<open>libMap[k]\<close> of an entry that exists.\<close>

fun map_modify :: "string \<Rightarrow> (libStruct \<Rightarrow> libStruct) \<Rightarrow> libMapT \<Rightarrow> libMapT" where
  "map_modify k f [] = []"
| "map_modify k f ((k', v') # m) =
     (if k = k' then (k', f v') # m else (k', v') # map_modify k f m)"

text \<open>\<open>libMap.erase(k)\<close>.\<close>

fun map_erase :: "string \<Rightarrow> libMapT \<Rightarrow> libMapT" where
  "map_erase k [] = []"
| "map_erase k ((k', v') # m) =
     (if k = k' then map_erase k m else (k', v') # map_erase k m)"

subsection \<open>unloadLibrary, releaseLibrary, acquireLibrary\<close>

text \<open>The call \<open>theLib->destroy(theLib->libInterface)\<close> under \<open>if(theLib->destroy)\<close>.\<close>

definition destroy_calls :: "libStruct \<Rightarrow> call list" where
  "destroy_calls theLib =
     (case destroy theLib of None \<Rightarrow> [] | Some d \<Rightarrow> [Destroy d (libInterface theLib)])"

definition unloadLibrary :: "string \<Rightarrow> state \<Rightarrow> ErrorNumber outcome" where
  "unloadLibrary libName s =
     (case map_find libName (libMap s) of
        None \<Rightarrow> Returns LIBMGR_ERR_NO_LIBRARY s
      | Some theLib \<Rightarrow>
          if useCount theLib < 0 then Throws s
          else if useCount theLib = 0 then
            Returns LIBMGR_NO_ERROR
              (s\<lparr>libMap := map_erase libName (libMap s),
                 calls := calls s @ destroy_calls theLib\<rparr>)
          else Returns LIBMGR_ERR_LIB_IN_USE s)"

text \<open>
  \<open>releaseLibrary\<close> decrements first, so the entry keeps the decremented count when the
  function throws; the value \<open>unloadLibrary\<close> returns is dropped.
\<close>

definition releaseLibrary :: "string \<Rightarrow> state \<Rightarrow> ErrorNumber outcome" where
  "releaseLibrary libName s =
     (case map_find libName (libMap s) of
        None \<Rightarrow> Returns LIBMGR_ERR_NO_LIBRARY s
      | Some theLib \<Rightarrow>
          if useCount theLib = INT_MIN then Undefined
          else
            let s1 = s\<lparr>libMap :=
                        map_modify libName (\<lambda>l. l\<lparr>useCount := useCount l - 1\<rparr>) (libMap s)\<rparr>
            in if useCount theLib - 1 < 0 then Throws s1
               else if useCount theLib - 1 = 0 then
                 (case unloadLibrary libName s1 of
                    Returns e s2 \<Rightarrow> Returns LIBMGR_NO_ERROR s2
                  | Throws s2 \<Rightarrow> Throws s2
                  | Undefined \<Rightarrow> Undefined)
               else Returns LIBMGR_NO_ERROR s1)"

text \<open>\<open>acquireLibrary\<close> returns the library's pointer, \<open>NULL\<close> when the name is unknown.\<close>

definition acquireLibrary :: "string \<Rightarrow> state \<Rightarrow> (LibInterface option) outcome" where
  "acquireLibrary libName s =
     (case map_find libName (libMap s) of
        None \<Rightarrow> Returns None s
      | Some theLib \<Rightarrow>
          if useCount theLib = INT_MAX then Undefined
          else Returns (libInterface theLib)
                 (s\<lparr>libMap :=
                      map_modify libName (\<lambda>l. l\<lparr>useCount := useCount l + 1\<rparr>) (libMap s)\<rparr>))"

subsection \<open>addLibrary\<close>

text \<open>
  The loop that notifies the libraries of the new one: every entry whose key is not the
  new name has \<open>newLibLoaded(name)\<close> called through its \<open>libInterface\<close>; \<open>None\<close> when that
  pointer is null.
\<close>

fun notify :: "string \<Rightarrow> libMapT \<Rightarrow> call list option" where
  "notify name [] = Some []"
| "notify name ((k, v) # m) =
     (if k \<noteq> name then
        (case libInterface v of
           None \<Rightarrow> None
         | Some i \<Rightarrow> map_option ((#) (NewLibLoaded i name)) (notify name m))
      else notify name m)"

definition addLibrary ::
  "LibInterface option \<Rightarrow> destroyLib option \<Rightarrow> string \<Rightarrow> state \<Rightarrow> ErrorNumber outcome" where
  "addLibrary lib destroyFunc pth s =
     (case lib of
        None \<Rightarrow> Returns LIBMGR_ERR_NO_LIBRARY s
      | Some i \<Rightarrow>
          let newLib = (libStruct_of lib)\<lparr>destroy := destroyFunc, path := pth\<rparr>;
              name = getLibName i;
              s1 = s\<lparr>calls := calls s @ [CreateModuleInfo i]\<rparr>
          in if map_find name (libMap s1) = None then
               (let m = map_assign name newLib (libMap s1)
                in case notify name m of
                     None \<Rightarrow> Undefined
                   | Some ns \<Rightarrow> Returns LIBMGR_NO_ERROR (s1\<lparr>libMap := m, calls := calls s1 @ ns\<rparr>))
             else Returns LIBMGR_ERR_LIBNAME_EXISTS s1)"

subsection \<open>clearLibraries, getAllLibraries\<close>

text \<open>
  One pass of the \<open>for\<close> loop of \<open>clearLibraries\<close>: the first entry whose \<open>useCount\<close> is 0,
  and the map without it (\<open>libMap.erase(it)\<close>); \<open>None\<close> when the pass ends with
  \<open>finished\<close> still true.
\<close>

fun first_unused :: "libMapT \<Rightarrow> (libStruct \<times> libMapT) option" where
  "first_unused [] = None"
| "first_unused ((k, v) # m) =
     (if useCount v = 0 then Some (v, m)
      else map_option (\<lambda>(u, m'). (u, (k, v) # m')) (first_unused m))"

lemma first_unused_length:
  "first_unused m = Some (u, m') \<Longrightarrow> length m' < length m"
proof (induction m arbitrary: m')
  case Nil
  then show ?case by simp
next
  case (Cons e m)
  obtain k v where e: "e = (k, v)" by (cases e)
  show ?case
  proof (cases "useCount v = 0")
    case True
    with Cons.prems e show ?thesis by simp
  next
    case False
    with Cons.prems e obtain m0 where "first_unused m = Some (u, m0)" "m' = (k, v) # m0"
      by auto
    with Cons.IH show ?thesis by fastforce
  qed
qed

function clearLibraries :: "state \<Rightarrow> state" where
  "clearLibraries s =
     (case first_unused (libMap s) of
        None \<Rightarrow> s
      | Some (u, m') \<Rightarrow>
          clearLibraries (s\<lparr>libMap := m', calls := calls s @ destroy_calls u\<rparr>))"
  by pat_completeness auto
termination
  by (relation "measure (\<lambda>s. length (libMap s))") (auto dest: first_unused_length)

declare clearLibraries.simps [simp del]

text \<open>
  \<open>getAllLibraries\<close> appends every library's pointer to the caller's list and increments
  every \<open>useCount\<close>.
\<close>

fun getAll_loop :: "libMapT \<Rightarrow> (LibInterface option list \<times> libMapT) option" where
  "getAll_loop [] = Some ([], [])"
| "getAll_loop ((k, v) # m) =
     (if useCount v = INT_MAX then None
      else map_option (\<lambda>(ps, m'). (libInterface v # ps, (k, v\<lparr>useCount := useCount v + 1\<rparr>) # m'))
             (getAll_loop m))"

definition getAllLibraries ::
  "LibInterface option list \<Rightarrow> state \<Rightarrow> (LibInterface option list) outcome" where
  "getAllLibraries libList s =
     (case getAll_loop (libMap s) of
        None \<Rightarrow> Undefined
      | Some (ps, m') \<Rightarrow> Returns (libList @ ps) (s\<lparr>libMap := m'\<rparr>))"

subsection \<open>loadLibrary\<close>

text \<open>
  What \<open>loadLibrary\<close> reads of the machine it runs on: the platform the code was compiled
  for, the files \<open>fopen(_, "r")\<close> can open (with their content), the environment, and what
  \<open>dlopen\<close>/\<open>LoadLibrary\<close> opens. An opened library is known by the three entry points
  \<open>getFunc\<close> looks up in it.
\<close>

datatype platform = Win32 | Apple | Other

record image =
  destroy_c :: "destroyLib option"
  create_c :: "createLib option"
  config_create_c :: "createLib2 option"

record machine =
  os :: platform
  files :: "string \<Rightarrow> string option"
  getenv :: "string \<Rightarrow> string option"
  dlopen :: "string \<Rightarrow> image option"

definition prefix :: string where
  "prefix = ''lib''"

fun suffix :: "platform \<Rightarrow> string" where
  "suffix Win32 = ''.dll''"
| "suffix Apple = ''.dylib''"
| "suffix Other = ''.so''"

fun sep :: "platform \<Rightarrow> char" where
  "sep Win32 = CHR '';''"
| "sep Apple = CHR '':''"
| "sep Other = CHR '':''"

fun env :: "platform \<Rightarrow> string" where
  "env Win32 = ''PATH''"
| "env Apple = ''DYLD_LIBRARY_PATH''"
| "env Other = ''LD_LIBRARY_PATH''"

text \<open>\<open>fopen(p, "r")\<close> returns a non-null \<open>FILE *\<close>.\<close>

definition fopen_r :: "machine \<Rightarrow> string \<Rightarrow> bool" where
  "fopen_r mc p = (files mc p \<noteq> None)"

text \<open>\<open>s.find(c, pos)\<close>, \<open>None\<close> for \<open>npos\<close>; \<open>s.substr(pos, n)\<close> for \<open>pos \<le> s.size()\<close>.\<close>

definition str_find :: "string \<Rightarrow> char \<Rightarrow> nat \<Rightarrow> nat option" where
  "str_find s c pos =
     (if c \<in> set (drop pos s) then Some (pos + length (takeWhile (\<lambda>x. x \<noteq> c) (drop pos s)))
      else None)"

definition substr :: "string \<Rightarrow> nat \<Rightarrow> nat \<Rightarrow> string" where
  "substr s pos n = take n (drop pos s)"

lemma takeWhile_neq_length:
  "c \<in> set xs \<Longrightarrow> length (takeWhile (\<lambda>x. x \<noteq> c) xs) < length xs"
  by (induction xs) auto

lemma str_find_bounds:
  "str_find s c pos = Some n \<Longrightarrow> pos \<le> n \<and> n < length s"
proof -
  assume a: "str_find s c pos = Some n"
  then have m: "c \<in> set (drop pos s)" and n: "n = pos + length (takeWhile (\<lambda>x. x \<noteq> c) (drop pos s))"
    by (auto simp: str_find_def split: if_splits)
  from m have "length (takeWhile (\<lambda>x. x \<noteq> c) (drop pos s)) < length (drop pos s)"
    by (rule takeWhile_neq_length)
  with n show ?thesis by simp
qed

text \<open>
  The \<open>while\<close> loop over the search list, from position \<open>actual_path_pos\<close>. It returns the
  paths it has tried to open, in order, and the value of \<open>filepath\<close> after the loop.
\<close>

function search_loop ::
  "(string \<Rightarrow> bool) \<Rightarrow> char \<Rightarrow> string \<Rightarrow> string \<Rightarrow> nat \<Rightarrow> string list \<times> string" where
  "search_loop openable c filepath lib_path_s actual_path_pos =
     (let next_path_pos = str_find lib_path_s c actual_path_pos;
          actual_path = substr lib_path_s actual_path_pos
            (case next_path_pos of
               Some n \<Rightarrow> n - actual_path_pos
             | None \<Rightarrow> length lib_path_s - actual_path_pos);
          actual_lib_path = actual_path @ ''/'' @ filepath
      in if openable actual_lib_path then ([actual_lib_path], actual_lib_path)
         else (case next_path_pos of
                 None \<Rightarrow> ([actual_lib_path], filepath)
               | Some n \<Rightarrow>
                   (case search_loop openable c filepath lib_path_s (n + 1) of
                      (tried, r) \<Rightarrow> (actual_lib_path # tried, r))))"
  by pat_completeness auto
termination
  by (relation "measure (\<lambda>(openable, c, filepath, lib_path_s, pos). length lib_path_s - pos)")
     (auto dest: str_find_bounds [OF sym])

declare search_loop.simps [simp del]

text \<open>
  Lines 182 to 215 of \<open>loadLibrary\<close>: the path handed to \<open>intern_loadLib\<close>, with the paths
  the function has tried to open on the way.
\<close>

definition locate :: "machine \<Rightarrow> string \<Rightarrow> string list \<times> string" where
  "locate mc libPath =
     (if fopen_r mc libPath then ([libPath], libPath)
      else
        let filepath = prefix @ libPath @ suffix (os mc)
        in case getenv mc (env (os mc)) of
             None \<Rightarrow> ([libPath], filepath)
           | Some lib_path_s \<Rightarrow>
               (case search_loop (fopen_r mc) (sep (os mc)) filepath lib_path_s 0 of
                  (tried, r) \<Rightarrow> (libPath # tried, r)))"

text \<open>
  Lines 218 to 240: the instance the factory returns (null when a step fails) and the
  destroy function.
\<close>

definition instantiate ::
  "machine \<Rightarrow> string \<Rightarrow> config option \<Rightarrow> LibInterface option \<times> destroyLib option" where
  "instantiate mc filepath cfg =
     (case dlopen mc filepath of
        None \<Rightarrow> (None, None)
      | Some pl \<Rightarrow>
          (case destroy_c pl of
             None \<Rightarrow> (None, None)
           | Some d \<Rightarrow>
               (case cfg of
                  None \<Rightarrow>
                    (case create_c pl of
                       None \<Rightarrow> (None, Some d)
                     | Some tmp_con \<Rightarrow> (tmp_con, Some d))
                | Some c \<Rightarrow>
                    (case config_create_c pl of
                       None \<Rightarrow> (None, Some d)
                     | Some tmp_con2 \<Rightarrow> (tmp_con2 c, Some d)))))"

definition loadLibrary ::
  "machine \<Rightarrow> string \<Rightarrow> config option \<Rightarrow> state \<Rightarrow> ErrorNumber outcome" where
  "loadLibrary mc libPath cfg s =
     (let filepath = snd (locate mc libPath)
      in case instantiate mc filepath cfg of
           (None, destroyFunc) \<Rightarrow> Returns LIBMGR_ERR_NOT_ABLE_TO_LOAD s
         | (Some i, destroyFunc) \<Rightarrow>
             (case addLibrary (Some i) destroyFunc libPath s of
                Returns error s1 \<Rightarrow>
                  if error \<noteq> LIBMGR_NO_ERROR then
                    (case destroyFunc of
                       None \<Rightarrow> Undefined
                     | Some d \<Rightarrow>
                         Returns LIBMGR_NO_ERROR (s1\<lparr>calls := calls s1 @ [Destroy d (Some i)]\<rparr>))
                  else Returns LIBMGR_NO_ERROR s1
              | Throws s1 \<Rightarrow> Throws s1
              | Undefined \<Rightarrow> Undefined))"

subsection \<open>loadConfigFile\<close>

definition maxChars :: nat where
  "maxChars = 255"

text \<open>
  \<open>fgets(buf, n, f)\<close> on the unread rest of the file: it stores at most \<open>n - 1\<close> bytes,
  stopping after a newline, and returns null when nothing is left to read.
\<close>

fun fgets_read :: "nat \<Rightarrow> string \<Rightarrow> string \<times> string" where
  "fgets_read 0 cs = ([], cs)"
| "fgets_read (Suc n) [] = ([], [])"
| "fgets_read (Suc n) (c # cs) =
     (if c = CHR 0x0A then ([c], cs)
      else (case fgets_read n cs of (buf, rest) \<Rightarrow> (c # buf, rest)))"

definition fgets :: "nat \<Rightarrow> string \<Rightarrow> (string \<times> string) option" where
  "fgets n stream = (if stream = [] then None else Some (fgets_read (n - 1) stream))"

text \<open>The conversion of the character buffer to \<open>std::string\<close> stops at the first NUL.\<close>

definition c_str :: "string \<Rightarrow> string" where
  "c_str buf = takeWhile (\<lambda>c. c \<noteq> CHR 0x00) buf"

definition find_first_not_of :: "string \<Rightarrow> string \<Rightarrow> nat option" where
  "find_first_not_of s chars =
     (if \<forall>c \<in> set s. c \<in> set chars then None
      else Some (length (takeWhile (\<lambda>c. c \<in> set chars) s)))"

definition find_last_not_of :: "string \<Rightarrow> string \<Rightarrow> nat option" where
  "find_last_not_of s chars =
     (if \<forall>c \<in> set s. c \<in> set chars then None
      else Some (length s - 1 - length (takeWhile (\<lambda>c. c \<in> set chars) (rev s))))"

text \<open>The characters \<open>" \t\n\r"\<close>.\<close>

definition whitespace :: string where
  "whitespace = [CHR '' '', CHR 0x09, CHR 0x0A, CHR 0x0D]"

text \<open>\<open>s[0]\<close>; for an empty \<open>std::string\<close> it is the terminating NUL.\<close>

definition first_char :: "string \<Rightarrow> char" where
  "first_char s = (case s of [] \<Rightarrow> CHR 0x00 | c # cs \<Rightarrow> c)"

text \<open>
  The body of the \<open>while\<close> loop up to the call of \<open>loadLibrary\<close>: the argument of that
  call, or \<open>None\<close> when the buffer is skipped.
\<close>

definition plugin_of :: "string \<Rightarrow> string option" where
  "plugin_of plugin_chars =
     (let plugin_path = c_str plugin_chars
      in case (find_first_not_of plugin_path whitespace,
               find_last_not_of plugin_path whitespace) of
           (Some pos1, Some pos2) \<Rightarrow>
             (let plugin_path' = substr plugin_path pos1 (pos2 - pos1 + 1)
              in if first_char plugin_path' \<noteq> CHR ''#'' then Some plugin_path' else None)
         | _ \<Rightarrow> None)"

lemma fgets_read_le:
  "length (snd (fgets_read n cs)) \<le> length cs"
  by (induction n cs rule: fgets_read.induct) (auto split: prod.splits)

lemma fgets_read_length:
  "length (snd (fgets_read (Suc n) (c # cs))) \<le> length cs"
  using fgets_read_le [of n cs] by (auto split: prod.splits)

lemma fgets_maxChars_shorter:
  assumes "fgets maxChars stream = Some (buf, rest)"
  shows "length rest < length stream"
proof -
  from assms obtain c cs where s: "stream = c # cs"
    by (cases stream) (auto simp: fgets_def)
  from assms s have "rest = snd (fgets_read (Suc 253) (c # cs))"
    by (simp add: fgets_def maxChars_def split: if_splits)
  with fgets_read_length [of 253 c cs] s show ?thesis by simp
qed

text \<open>
  The \<open>while\<close> loop of \<open>loadConfigFile\<close> on the unread rest of the file. The value
  \<open>loadLibrary\<close> returns is dropped. The model returns the arguments of the calls of
  \<open>loadLibrary\<close> it has made, in order.
\<close>

function loadConfig_loop :: "machine \<Rightarrow> string \<Rightarrow> state \<Rightarrow> (string list) outcome" where
  "loadConfig_loop mc stream s =
     (case fgets maxChars stream of
        None \<Rightarrow> Returns [] s
      | Some (plugin_chars, rest) \<Rightarrow>
          (case plugin_of plugin_chars of
             None \<Rightarrow> loadConfig_loop mc rest s
           | Some plugin_path \<Rightarrow>
               (case loadLibrary mc plugin_path None s of
                  Returns e s1 \<Rightarrow>
                    (case loadConfig_loop mc rest s1 of
                       Returns loaded s2 \<Rightarrow> Returns (plugin_path # loaded) s2
                     | Throws s2 \<Rightarrow> Throws s2
                     | Undefined \<Rightarrow> Undefined)
                | Throws s1 \<Rightarrow> Throws s1
                | Undefined \<Rightarrow> Undefined)))"
  by pat_completeness auto
termination
  by (relation "measure (\<lambda>(mc, stream, s). length stream)")
     (auto dest: fgets_maxChars_shorter)

declare loadConfig_loop.simps [simp del]

definition loadConfigFile :: "machine \<Rightarrow> string \<Rightarrow> state \<Rightarrow> (string list) outcome" where
  "loadConfigFile mc config_file s =
     (case files mc config_file of
        None \<Rightarrow> Returns [] s
      | Some content \<Rightarrow> loadConfig_loop mc content s)"

text \<open>
  The arguments of the calls of \<open>loadLibrary\<close> the loop makes on the unread rest of a file:
  the loop above without the state. They do not depend on what the calls do.
\<close>

function load_args :: "string \<Rightarrow> string list" where
  "load_args stream =
     (case fgets maxChars stream of
        None \<Rightarrow> []
      | Some (plugin_chars, rest) \<Rightarrow>
          (case plugin_of plugin_chars of
             None \<Rightarrow> load_args rest
           | Some plugin_path \<Rightarrow> plugin_path # load_args rest))"
  by pat_completeness auto
termination
  by (relation "measure length") (auto dest: fgets_maxChars_shorter)

declare load_args.simps [simp del]

subsection \<open>The states the manager can be in\<close>

text \<open>
  A state is reachable when calls of the public member functions lead to it from the
  constructed manager, each call on any arguments and on any machine. A call that throws
  leaves the state it had reached to the caller that catches.
\<close>

inductive reachable :: "state \<Rightarrow> bool" where
  r_init: "reachable LibManager"
| r_add: "reachable s \<Longrightarrow> addLibrary lib d p s = Returns e s' \<Longrightarrow> reachable s'"
| r_load: "reachable s \<Longrightarrow> loadLibrary mc p cfg s = Returns e s' \<Longrightarrow> reachable s'"
| r_acquire: "reachable s \<Longrightarrow> acquireLibrary n s = Returns h s' \<Longrightarrow> reachable s'"
| r_release: "reachable s \<Longrightarrow> releaseLibrary n s = Returns e s' \<Longrightarrow> reachable s'"
| r_unload: "reachable s \<Longrightarrow> unloadLibrary n s = Returns e s' \<Longrightarrow> reachable s'"
| r_getAll: "reachable s \<Longrightarrow> getAllLibraries l s = Returns l' s' \<Longrightarrow> reachable s'"
| r_clear: "reachable s \<Longrightarrow> reachable (clearLibraries s)"
| r_config: "reachable s \<Longrightarrow> loadConfigFile mc f s = Returns ps s' \<Longrightarrow> reachable s'"
| r_add_throw: "reachable s \<Longrightarrow> addLibrary lib d p s = Throws s' \<Longrightarrow> reachable s'"
| r_load_throw: "reachable s \<Longrightarrow> loadLibrary mc p cfg s = Throws s' \<Longrightarrow> reachable s'"
| r_acquire_throw: "reachable s \<Longrightarrow> acquireLibrary n s = Throws s' \<Longrightarrow> reachable s'"
| r_release_throw: "reachable s \<Longrightarrow> releaseLibrary n s = Throws s' \<Longrightarrow> reachable s'"
| r_unload_throw: "reachable s \<Longrightarrow> unloadLibrary n s = Throws s' \<Longrightarrow> reachable s'"
| r_getAll_throw: "reachable s \<Longrightarrow> getAllLibraries l s = Throws s' \<Longrightarrow> reachable s'"
| r_config_throw: "reachable s \<Longrightarrow> loadConfigFile mc f s = Throws s' \<Longrightarrow> reachable s'"

subsection \<open>The invariant of the map\<close>

text \<open>
  Every entry holds a library whose name is the entry's key, and a \<open>useCount\<close> between 1
  and \<open>INT_MAX\<close>.
\<close>

definition entry_ok :: "string \<times> libStruct \<Rightarrow> bool" where
  "entry_ok e =
     (case e of (k, v) \<Rightarrow>
        (case libInterface v of None \<Rightarrow> False | Some i \<Rightarrow> getLibName i = k)
        \<and> 1 \<le> useCount v \<and> useCount v \<le> INT_MAX)"

definition manager_inv :: "state \<Rightarrow> bool" where
  "manager_inv s = list_all entry_ok (libMap s)"

text \<open>The keys of the map are in strictly ascending order, as in a \<open>std::map\<close>.\<close>

definition keys_sorted :: "state \<Rightarrow> bool" where
  "keys_sorted s = sorted_wrt (<) (map fst (libMap s))"


text \<open>The \<open>useCount\<close> of the entry of a name, when the map has one.\<close>

definition refCount :: "string \<Rightarrow> state \<Rightarrow> int option" where
  "refCount n s = map_option useCount (map_find n (libMap s))"

subsection \<open>A manager holding one library, and a machine\<close>

text \<open>
  The state after \<open>addLibrary(lib_A, 7, "a.so")\<close> on a new manager, where \<open>lib_A\<close> reports the
  name \<open>A\<close>; and a machine without files on which \<open>libA.so\<close> opens and its \<open>create_c\<close>
  returns another library that reports the name \<open>A\<close>.
\<close>

definition lib_A :: LibInterface where
  "lib_A = LibInterface 1 ''A''"

definition state_A :: state where
  "state_A =
     \<lparr>libMap = [(''A'', \<lparr>libInterface = Some lib_A, destroy = Some 7, useCount = 1,
                          wasUnloaded = False, path = ''a.so''\<rparr>)],
      calls = [CreateModuleInfo lib_A]\<rparr>"

definition machine_A :: machine where
  "machine_A =
     \<lparr>os = Other, files = (\<lambda>p. None), getenv = (\<lambda>v. None),
      dlopen = (\<lambda>p. if p = ''libA.so''
                      then Some \<lparr>destroy_c = Some 8,
                                 create_c = Some (Some (LibInterface 2 ''A'')),
                                 config_create_c = None\<rparr>
                      else None)\<rparr>"

text \<open>The state after \<open>acquireLibrary("A")\<close> on \<open>state_A\<close>: the library has two users.\<close>

definition state_A2 :: state where
  "state_A2 =
     \<lparr>libMap = [(''A'', \<lparr>libInterface = Some lib_A, destroy = Some 7, useCount = 2,
                          wasUnloaded = False, path = ''a.so''\<rparr>)],
      calls = [CreateModuleInfo lib_A]\<rparr>"

subsection \<open>Path resolution as the specification describes it\<close>






subsection \<open>Config file lines as the specification describes them\<close>

text \<open>
  Section 4.5 of the specification, in its words: a line is trimmed of leading and
  trailing whitespace; blank lines and lines beginning with \<open>#\<close> are ignored, every
  remaining line is passed on. \<open>entry_by ws l\<close> is the list of names passed on for the
  line \<open>l\<close>, none or one, when \<open>ws\<close> says which characters are whitespace. \<open>is_space\<close> is
  whitespace as the word is commonly read (the six characters of C's \<open>isspace\<close>); \<open>blank\<close>
  is space, tab, line feed and carriage return only. These definitions are not taken from
  the code: they are what \<open>loadConfigFile\<close> is compared with.
\<close>

definition is_space :: "char \<Rightarrow> bool" where
  "is_space c =
     (c = CHR '' '' \<or> c = CHR 0x09 \<or> c = CHR 0x0A \<or> c = CHR 0x0B \<or> c = CHR 0x0C
      \<or> c = CHR 0x0D)"

definition blank :: "char \<Rightarrow> bool" where
  "blank c = (c = CHR '' '' \<or> c = CHR 0x09 \<or> c = CHR 0x0A \<or> c = CHR 0x0D)"

definition trim_by :: "(char \<Rightarrow> bool) \<Rightarrow> string \<Rightarrow> string" where
  "trim_by ws l = rev (dropWhile ws (rev (dropWhile ws l)))"

definition entry_by :: "(char \<Rightarrow> bool) \<Rightarrow> string \<Rightarrow> string list" where
  "entry_by ws l =
     (case trim_by ws l of
        [] \<Rightarrow> []
      | c # cs \<Rightarrow> if c = CHR ''#'' then [] else [c # cs])"

text \<open>
  A machine with three config files: one line of 300 letters; the line \<open>A\<close> after a form
  feed; the line \<open>A\<close>, NUL, \<open>B\<close>. And a machine whose file \<open>plugins.txt\<close> has a comment of
  261 bytes, the line \<open>A\<close> between blanks, and the line \<open>B\<close> without a newline. Neither can
  open a library.
\<close>

definition machine_C :: machine where
  "machine_C =
     \<lparr>os = Other,
      files = (\<lambda>p. if p = ''long.cfg'' then Some (replicate 300 (CHR ''a'') @ [CHR 0x0A])
                   else if p = ''ff.cfg'' then Some ([CHR 0x0C] @ ''A'' @ [CHR 0x0A])
                   else if p = ''nul.cfg'' then Some (''A'' @ [CHR 0x00] @ ''B'' @ [CHR 0x0A])
                   else None),
      getenv = (\<lambda>v. None),
      dlopen = (\<lambda>p. None)\<rparr>"

definition machine_D :: machine where
  "machine_D =
     \<lparr>os = Other,
      files = (\<lambda>p. if p = ''plugins.txt''
                   then Some ((''#'' @ replicate 260 (CHR ''x'') @ [CHR 0x0A])
                              @ ''  A '' @ (CHR 0x0A # ''B''))
                   else None),
      getenv = (\<lambda>v. None),
      dlopen = (\<lambda>p. None)\<rparr>"

section \<open>Properties\<close>

subsection \<open>The map operations and the invariant\<close>

lemma map_find_modify:
  "map_find k (map_modify k' f m) =
     (if k = k' then map_option f (map_find k m) else map_find k m)"
  by (induction m) (auto simp: map_find_def)

lemma map_find_erase:
  "map_find k (map_erase k' m) = (if k = k' then None else map_find k m)"
  by (induction m) (auto simp: map_find_def)

lemma map_erase_modify:
  "map_erase k (map_modify k f m) = map_erase k m"
  by (induction m) auto

lemma map_modify_modify:
  "map_modify k g (map_modify k f m) = map_modify k (\<lambda>v. g (f v)) m"
  by (induction m) auto

lemma map_modify_same:
  "map_find k m = Some v \<Longrightarrow> f v = v \<Longrightarrow> map_modify k f m = m"
  by (induction m) (auto simp: map_find_def split: if_splits)

lemma map_find_entry_ok:
  "list_all entry_ok m \<Longrightarrow> map_find k m = Some v \<Longrightarrow> entry_ok (k, v)"
  by (induction m) (auto simp: map_find_def split: if_splits)

lemma map_modify_ok:
  "list_all entry_ok m \<Longrightarrow> map_find k m = Some v \<Longrightarrow> entry_ok (k, f v) \<Longrightarrow>
   list_all entry_ok (map_modify k f m)"
  by (induction m) (auto simp: map_find_def split: if_splits)

lemma map_erase_ok:
  "list_all entry_ok m \<Longrightarrow> list_all entry_ok (map_erase k m)"
  by (induction m) auto

lemma map_assign_ok:
  "list_all entry_ok m \<Longrightarrow> entry_ok (k, v) \<Longrightarrow> list_all entry_ok (map_assign k v m)"
  by (induction m) auto

lemma notify_ok:
  "list_all entry_ok m \<Longrightarrow> \<exists>ns. notify name m = Some ns"
  by (induction m) (auto simp: entry_ok_def split: option.splits)

lemma first_unused_ok:
  "list_all entry_ok m \<Longrightarrow> first_unused m = None"
  by (induction m) (auto simp: entry_ok_def)

lemma inv_unload:
  "manager_inv s \<Longrightarrow> unloadLibrary n s = Returns e s' \<or> unloadLibrary n s = Throws s' \<Longrightarrow> manager_inv s'"
  by (auto simp: unloadLibrary_def manager_inv_def map_erase_ok split: option.splits if_splits)

lemma inv_unload_same:
  "manager_inv s \<Longrightarrow> \<exists>e. unloadLibrary n s = Returns e s"
  by (auto simp: unloadLibrary_def manager_inv_def entry_ok_def split: option.splits if_splits dest!: map_find_entry_ok)

lemma inv_acquire:
  assumes "manager_inv s" "acquireLibrary n s = Returns e s' \<or> acquireLibrary n s = Throws s'"
  shows "manager_inv s'"
proof (cases "map_find n (libMap s)")
  case None
  with assms show ?thesis by (auto simp: acquireLibrary_def)
next
  case (Some v)
  with assms have ok: "entry_ok (n, v)" by (auto simp: manager_inv_def dest: map_find_entry_ok)
  from assms Some have ne: "useCount v \<noteq> INT_MAX"
    and s': "s' = s\<lparr>libMap := map_modify n (\<lambda>l. l\<lparr>useCount := useCount l + 1\<rparr>) (libMap s)\<rparr>"
    by (auto simp: acquireLibrary_def split: if_splits)
  from ok ne have "entry_ok (n, v\<lparr>useCount := useCount v + 1\<rparr>)"
    by (auto simp: entry_ok_def split: option.splits)
  with assms(1) Some s' show ?thesis
    by (simp add: manager_inv_def map_modify_ok)
qed

lemma inv_release:
  assumes "manager_inv s" "releaseLibrary n s = Returns e s' \<or> releaseLibrary n s = Throws s'"
  shows "manager_inv s'"
proof (cases "map_find n (libMap s)")
  case None
  with assms show ?thesis by (auto simp: releaseLibrary_def)
next
  case (Some v)
  with assms have ok: "entry_ok (n, v)" by (auto simp: manager_inv_def dest: map_find_entry_ok)
  let ?m = "map_modify n (\<lambda>l. l\<lparr>useCount := useCount l - 1\<rparr>) (libMap s)"
  show ?thesis
  proof (cases "useCount v = 1")
    case True
    with Some have find: "map_find n ?m = Some (v\<lparr>useCount := 0\<rparr>)"
      by (simp add: map_find_modify)
    with True assms(2) Some have "libMap s' = map_erase n (libMap s)"
      by (auto simp: releaseLibrary_def unloadLibrary_def INT_MIN_def Let_def map_erase_modify)
    with assms(1) show ?thesis by (simp add: manager_inv_def map_erase_ok)
  next
    case False
    with ok have gt: "1 < useCount v" by (simp add: entry_ok_def)
    with ok have ok': "entry_ok (n, v\<lparr>useCount := useCount v - 1\<rparr>)"
      by (auto simp: entry_ok_def split: option.splits)
    from gt assms Some have "s' = s\<lparr>libMap := ?m\<rparr>"
      by (auto simp: releaseLibrary_def INT_MIN_def Let_def split: if_splits)
    with assms(1) Some ok' show ?thesis by (simp add: manager_inv_def map_modify_ok)
  qed
qed


lemma inv_add:
  assumes "manager_inv s" "addLibrary lib d p s = Returns e s' \<or> addLibrary lib d p s = Throws s'"
  shows "manager_inv s'"
proof (cases lib)
  case None
  with assms show ?thesis by (auto simp: addLibrary_def)
next
  case (Some i)
  let ?new = "(libStruct_of (Some i))\<lparr>destroy := d, path := p\<rparr>"
  have "entry_ok (getLibName i, ?new)"
    by (simp add: entry_ok_def libStruct_of_def INT_MAX_def)
  with assms(1) have "list_all entry_ok (map_assign (getLibName i) ?new (libMap s))"
    by (simp add: manager_inv_def map_assign_ok)
  with assms Some show ?thesis
    by (auto simp: addLibrary_def Let_def manager_inv_def split: if_splits option.splits)
qed

lemma inv_add_returns:
  assumes "manager_inv s"
  shows "\<exists>e s'. addLibrary lib d p s = Returns e s'"
proof (cases lib)
  case None
  then show ?thesis by (simp add: addLibrary_def)
next
  case (Some i)
  let ?new = "(libStruct_of (Some i))\<lparr>destroy := d, path := p\<rparr>"
  have "entry_ok (getLibName i, ?new)"
    by (simp add: entry_ok_def libStruct_of_def INT_MAX_def)
  with assms have "list_all entry_ok (map_assign (getLibName i) ?new (libMap s))"
    by (simp add: manager_inv_def map_assign_ok)
  then obtain ns where "notify (getLibName i) (map_assign (getLibName i) ?new (libMap s)) = Some ns"
    using notify_ok by blast
  with Some show ?thesis
    by (simp add: addLibrary_def Let_def)
qed

lemma instantiate_destroy:
  "instantiate mc fp cfg = (Some i, d) \<Longrightarrow> d \<noteq> None"
  by (cases d) (auto simp: instantiate_def split: option.splits)

lemma inv_load_returns:
  assumes "manager_inv s"
  shows "\<exists>e s'. loadLibrary mc p cfg s = Returns e s' \<and> manager_inv s'"
proof (cases "instantiate mc (snd (locate mc p)) cfg")
  case (Pair io dopt)
  show ?thesis
  proof (cases io)
    case None
    with Pair assms show ?thesis by (simp add: loadLibrary_def)
  next
    case (Some i)
    with Pair obtain d where d: "dopt = Some d"
      using instantiate_destroy by blast
    from inv_add_returns [OF assms] obtain e s1 where
      a: "addLibrary (Some i) dopt p s = Returns e s1" by blast
    with assms have "manager_inv s1" using inv_add by blast
    then have "manager_inv (s1\<lparr>calls := calls s1 @ [Destroy d (Some i)]\<rparr>)" by (simp add: manager_inv_def)
    with Pair Some d a \<open>manager_inv s1\<close> show ?thesis
      by (simp add: loadLibrary_def)
  qed
qed

lemma inv_load:
  assumes "manager_inv s" "loadLibrary mc p cfg s = Returns e s' \<or> loadLibrary mc p cfg s = Throws s'"
  shows "manager_inv s'"
  using inv_load_returns [OF assms(1), of mc p cfg] assms(2) by auto

lemma inv_clear:
  "manager_inv s \<Longrightarrow> clearLibraries s = s"
  by (subst clearLibraries.simps) (simp add: manager_inv_def first_unused_ok)

lemma getAll_loop_ok:
  "list_all entry_ok m \<Longrightarrow> getAll_loop m = Some (ps, m') \<Longrightarrow> list_all entry_ok m'"
proof (induction m arbitrary: ps m')
  case Nil
  then show ?case by simp
next
  case (Cons e m)
  obtain k v where e: "e = (k, v)" by (cases e)
  with Cons.prems obtain ps0 m0 where r: "getAll_loop m = Some (ps0, m0)"
    and m': "m' = (k, v\<lparr>useCount := useCount v + 1\<rparr>) # m0" and ne: "useCount v \<noteq> INT_MAX"
    by (auto split: if_splits)
  from Cons.prems e ne have "entry_ok (k, v\<lparr>useCount := useCount v + 1\<rparr>)"
    by (auto simp: entry_ok_def split: option.splits)
  moreover from Cons.IH Cons.prems r have "list_all entry_ok m0" by simp
  ultimately show ?case using m' by simp
qed

lemma inv_getAll:
  "manager_inv s \<Longrightarrow> getAllLibraries l s = Returns l' s' \<or> getAllLibraries l s = Throws s' \<Longrightarrow> manager_inv s'"
  by (auto simp: getAllLibraries_def manager_inv_def split: option.splits dest: getAll_loop_ok)

lemma inv_config_loop:
  "manager_inv s \<Longrightarrow> \<exists>ps s'. loadConfig_loop mc stream s = Returns ps s' \<and> manager_inv s'"
proof (induction mc stream s rule: loadConfig_loop.induct)
  case (1 mc stream s)
  show ?case
  proof (cases "fgets maxChars stream")
    case None
    with "1.prems" show ?thesis by (subst loadConfig_loop.simps) simp
  next
    case (Some br)
    obtain buf rest where br: "br = (buf, rest)" by (cases br)
    show ?thesis
    proof (cases "plugin_of buf")
      case None
      with "1.IH"(1) [OF Some br [symmetric] None "1.prems"] Some br show ?thesis
        by (subst loadConfig_loop.simps) simp
    next
      case (Some pp)
      from inv_load_returns [OF "1.prems"] obtain e s1 where
        l: "loadLibrary mc pp None s = Returns e s1" and i1: "manager_inv s1" by blast
      from "1.IH"(2) [OF \<open>fgets maxChars stream = Some br\<close> br [symmetric] Some l i1]
      obtain ps s2 where "loadConfig_loop mc rest s1 = Returns ps s2" "manager_inv s2" by blast
      with \<open>fgets maxChars stream = Some br\<close> br Some l show ?thesis
        by (subst loadConfig_loop.simps) simp
    qed
  qed
qed

lemma inv_config:
  assumes "manager_inv s" "loadConfigFile mc f s = Returns ps s' \<or> loadConfigFile mc f s = Throws s'"
  shows "manager_inv s'"
proof (cases "files mc f")
  case None
  with assms show ?thesis by (auto simp: loadConfigFile_def)
next
  case (Some content)
  from inv_config_loop [OF assms(1), of mc content] Some assms(2) show ?thesis
    by (auto simp: loadConfigFile_def)
qed

lemma reachable_inv:
  "reachable s \<Longrightarrow> manager_inv s"
proof (induction rule: reachable.induct)
  case r_init
  show ?case by (simp add: manager_inv_def LibManager_def)
next
  case (r_clear s)
  then show ?case by (simp add: inv_clear)
next
  case (r_add s lib d p e s')
  then show ?case using inv_add by blast
next
  case (r_load s mc p cfg e s')
  then show ?case using inv_load by blast
next
  case (r_acquire s n h s')
  then show ?case using inv_acquire by blast
next
  case (r_release s n e s')
  then show ?case using inv_release by blast
next
  case (r_unload s n e s')
  then show ?case using inv_unload by blast
next
  case (r_getAll s l l' s')
  then show ?case using inv_getAll by blast
next
  case (r_config s mc f ps s')
  then show ?case using inv_config by blast
next
  case (r_add_throw s lib d p s')
  then show ?case using inv_add by blast
next
  case (r_load_throw s mc p cfg s')
  then show ?case using inv_load by blast
next
  case (r_acquire_throw s n s')
  then show ?case using inv_acquire by blast
next
  case (r_release_throw s n s')
  then show ?case using inv_release by blast
next
  case (r_unload_throw s n s')
  then show ?case using inv_unload by blast
next
  case (r_getAll_throw s l s')
  then show ?case using inv_getAll by blast
next
  case (r_config_throw s mc f s')
  then show ?case using inv_config by blast
qed

subsection \<open>The order of the keys\<close>

lemma map_modify_keys: "map fst (map_modify k f m) = map fst m"
  by (induction m) auto

lemma map_erase_filter: "map_erase k m = filter (\<lambda>e. fst e \<noteq> k) m"
  by (induction m) auto

lemma map_erase_sorted:
  "sorted_wrt (<) (map fst m) \<Longrightarrow> sorted_wrt (<) (map fst (map_erase k m))"
  by (simp add: map_erase_filter sorted_wrt_map sorted_wrt_filter)

lemma map_assign_subset: "set (map_assign k v m) \<subseteq> insert (k, v) (set m)"
  by (induction m) (auto split: if_splits)

lemma map_assign_sorted:
  assumes "sorted_wrt (<) (map fst m)"
  shows "sorted_wrt (<) (map fst (map_assign k v m))"
proof -
  have "sorted_wrt (\<lambda>a b. fst a < fst b) m \<Longrightarrow>
        sorted_wrt (\<lambda>a b. fst a < fst b) (map_assign k v m)"
  proof (induction m)
    case Nil
    then show ?case by simp
  next
    case (Cons e m)
    obtain k' v' where e: "e = (k', v')" by (cases e)
    show ?case
    proof (cases "k = k'")
      case True
      with Cons.prems e show ?thesis by simp
    next
      case False
      show ?thesis
      proof (cases "k < k'")
        case True
        with Cons.prems e False show ?thesis by auto
      next
        case ge: False
        with False have lt: "k' < k" by simp
        have "\<forall>x \<in> set (map_assign k v m). k' < fst x"
        proof
          fix x assume "x \<in> set (map_assign k v m)"
          with map_assign_subset [of k v m] have "x = (k, v) \<or> x \<in> set m" by blast
          with lt Cons.prems e show "k' < fst x" by auto
        qed
        moreover from Cons have "sorted_wrt (\<lambda>a b. fst a < fst b) (map_assign k v m)" by simp
        ultimately show ?thesis using e False ge by simp
      qed
    qed
  qed
  with assms show ?thesis by (simp add: sorted_wrt_map)
qed

lemma first_unused_sub:
  "first_unused m = Some (u, m') \<Longrightarrow> set m' \<subseteq> set m"
proof (induction m arbitrary: m')
  case Nil
  then show ?case by simp
next
  case (Cons e m)
  obtain k v where e: "e = (k, v)" by (cases e)
  show ?case
  proof (cases "useCount v = 0")
    case True
    with Cons.prems e show ?thesis by auto
  next
    case False
    with Cons.prems e obtain m0 where f: "first_unused m = Some (u, m0)" and m': "m' = (k, v) # m0"
      by auto
    from Cons.IH [OF f] e m' show ?thesis by auto
  qed
qed

lemma first_unused_keys:
  assumes "first_unused m = Some (u, m')" "sorted_wrt (<) (map fst m)"
  shows "sorted_wrt (<) (map fst m')"
proof -
  have "first_unused m = Some (u, m') \<Longrightarrow> sorted_wrt (\<lambda>a b. fst a < fst b) m \<Longrightarrow>
        sorted_wrt (\<lambda>a b. fst a < fst b) m'"
  proof (induction m arbitrary: m')
    case Nil
    then show ?case by simp
  next
    case (Cons e m)
    obtain k v where e: "e = (k, v)" by (cases e)
    show ?case
    proof (cases "useCount v = 0")
      case True
      with Cons.prems e show ?thesis by auto
    next
      case False
      with Cons.prems e obtain m0 where f: "first_unused m = Some (u, m0)"
        and m': "m' = (k, v) # m0"
        by auto
      from Cons.prems e have s: "sorted_wrt (\<lambda>a b. fst a < fst b) m"
        and lt: "\<forall>x \<in> set m. k < fst x" by simp_all
      from first_unused_sub [OF f] lt have "\<forall>x \<in> set m0. k < fst x" by blast
      with Cons.IH [OF f s] m' show ?thesis by simp
    qed
  qed
  with assms show ?thesis by (simp add: sorted_wrt_map)
qed

lemma getAll_loop_keys:
  "getAll_loop m = Some (ps, m') \<Longrightarrow> map fst m' = map fst m"
proof (induction m arbitrary: ps m')
  case Nil
  then show ?case by simp
next
  case (Cons e m)
  obtain k v where e: "e = (k, v)" by (cases e)
  with Cons.prems obtain ps0 m0 where "getAll_loop m = Some (ps0, m0)"
    "m' = (k, v\<lparr>useCount := useCount v + 1\<rparr>) # m0"
    by (auto split: if_splits)
  with Cons.IH e show ?case by simp
qed

lemma sorted_unload:
  "keys_sorted s \<Longrightarrow> unloadLibrary n s = Returns e s' \<or> unloadLibrary n s = Throws s' \<Longrightarrow>
   keys_sorted s'"
  by (auto simp: unloadLibrary_def keys_sorted_def map_erase_sorted split: option.splits if_splits)

lemma sorted_acquire:
  "keys_sorted s \<Longrightarrow> acquireLibrary n s = Returns e s' \<or> acquireLibrary n s = Throws s' \<Longrightarrow>
   keys_sorted s'"
  by (auto simp: acquireLibrary_def keys_sorted_def map_modify_keys split: option.splits if_splits)

lemma sorted_release:
  assumes "keys_sorted s" "releaseLibrary n s = Returns e s' \<or> releaseLibrary n s = Throws s'"
  shows "keys_sorted s'"
proof (cases "map_find n (libMap s)")
  case None
  with assms show ?thesis by (auto simp: releaseLibrary_def)
next
  case (Some v)
  let ?s1 = "s\<lparr>libMap := map_modify n (\<lambda>l. l\<lparr>useCount := useCount l - 1\<rparr>) (libMap s)\<rparr>"
  from assms(1) have s1: "keys_sorted ?s1" by (simp add: keys_sorted_def map_modify_keys)
  from assms(2) Some have "s' = ?s1 \<or> (\<exists>e2. unloadLibrary n ?s1 = Returns e2 s')
      \<or> unloadLibrary n ?s1 = Throws s'"
    by (auto simp: releaseLibrary_def Let_def split: if_splits outcome.splits)
  with s1 show ?thesis using sorted_unload by blast
qed

lemma sorted_add:
  "keys_sorted s \<Longrightarrow> addLibrary lib d p s = Returns e s' \<or> addLibrary lib d p s = Throws s' \<Longrightarrow>
   keys_sorted s'"
  by (auto simp: addLibrary_def keys_sorted_def map_assign_sorted Let_def
      split: option.splits if_splits)

lemma sorted_load:
  assumes "keys_sorted s" "loadLibrary mc p cfg s = Returns e s' \<or> loadLibrary mc p cfg s = Throws s'"
  shows "keys_sorted s'"
proof (cases "instantiate mc (snd (locate mc p)) cfg")
  case (Pair io dopt)
  show ?thesis
  proof (cases io)
    case None
    with Pair assms show ?thesis by (auto simp: loadLibrary_def)
  next
    case (Some i)
    show ?thesis
    proof (cases "addLibrary (Some i) dopt p s")
      case (Returns e1 s1)
      with assms(1) have "keys_sorted s1" using sorted_add by blast
      moreover from Pair Some Returns assms(2) have "libMap s' = libMap s1"
        by (auto simp: loadLibrary_def split: if_splits option.splits)
      ultimately show ?thesis by (simp add: keys_sorted_def)
    next
      case (Throws s1)
      with assms(1) have "keys_sorted s1" using sorted_add by blast
      moreover from Pair Some Throws assms(2) have "s' = s1"
        by (auto simp: loadLibrary_def)
      ultimately show ?thesis by simp
    next
      case Undefined
      with Pair Some assms(2) show ?thesis by (auto simp: loadLibrary_def)
    qed
  qed
qed

lemma sorted_getAll:
  "keys_sorted s \<Longrightarrow> getAllLibraries l s = Returns l' s' \<or> getAllLibraries l s = Throws s' \<Longrightarrow>
   keys_sorted s'"
  by (auto simp: getAllLibraries_def keys_sorted_def split: option.splits dest: getAll_loop_keys)

lemma sorted_clear: "keys_sorted s \<Longrightarrow> keys_sorted (clearLibraries s)"
proof (induction s rule: clearLibraries.induct)
  case (1 s)
  show ?case
  proof (cases "first_unused (libMap s)")
    case None
    with "1.prems" show ?thesis by (subst clearLibraries.simps) simp
  next
    case (Some um)
    obtain u m' where um: "um = (u, m')" by (cases um)
    from first_unused_keys [of "libMap s" u m'] Some um "1.prems"
    have "keys_sorted (s\<lparr>libMap := m', calls := calls s @ destroy_calls u\<rparr>)"
      by (simp add: keys_sorted_def)
    from "1.IH" [OF Some um [symmetric] this] Some um show ?thesis
      by (subst clearLibraries.simps) simp
  qed
qed

lemma sorted_config_loop:
  "keys_sorted s \<Longrightarrow>
   \<forall>ps s'. loadConfig_loop mc stream s = Returns ps s' \<or> loadConfig_loop mc stream s = Throws s'
      \<longrightarrow> keys_sorted s'"
proof (induction mc stream s rule: loadConfig_loop.induct)
  case (1 mc stream s)
  show ?case
  proof (cases "fgets maxChars stream")
    case None
    then have "loadConfig_loop mc stream s = Returns [] s"
      by (subst loadConfig_loop.simps) simp
    with "1.prems" show ?thesis by simp
  next
    case (Some br)
    obtain buf rest where br: "br = (buf, rest)" by (cases br)
    show ?thesis
    proof (cases "plugin_of buf")
      case None
      with Some br have "loadConfig_loop mc stream s = loadConfig_loop mc rest s"
        by (subst loadConfig_loop.simps) simp
      with "1.IH"(1) [OF Some br [symmetric] None "1.prems"] show ?thesis
        by simp
    next
      case pp: (Some plugin_path)
      show ?thesis
      proof (cases "loadLibrary mc plugin_path None s")
        case (Returns e s1)
        with "1.prems" have k1: "keys_sorted s1" using sorted_load by blast
        from Some br pp Returns
        have "loadConfig_loop mc stream s =
                (case loadConfig_loop mc rest s1 of
                   Returns loaded s2 \<Rightarrow> Returns (plugin_path # loaded) s2
                 | Throws s2 \<Rightarrow> Throws s2
                 | Undefined \<Rightarrow> Undefined)"
          by (subst loadConfig_loop.simps) simp
        with "1.IH"(2) [OF Some br [symmetric] pp Returns k1]
        show ?thesis
          by (auto split: outcome.splits)
      next
        case (Throws s1)
        with "1.prems" have "keys_sorted s1" using sorted_load by blast
        moreover from Some br pp Throws have "loadConfig_loop mc stream s = Throws s1"
          by (subst loadConfig_loop.simps) simp
        ultimately show ?thesis by simp
      next
        case Undefined
        with Some br pp have "loadConfig_loop mc stream s = Undefined"
          by (subst loadConfig_loop.simps) simp
        then show ?thesis by simp
      qed
    qed
  qed
qed

lemma sorted_config:
  assumes "keys_sorted s"
    "loadConfigFile mc f s = Returns ps s' \<or> loadConfigFile mc f s = Throws s'"
  shows "keys_sorted s'"
proof (cases "files mc f")
  case None
  with assms show ?thesis by (auto simp: loadConfigFile_def)
next
  case (Some content)
  from sorted_config_loop [OF assms(1), of mc content] Some assms(2) show ?thesis
    by (auto simp: loadConfigFile_def)
qed

lemma reachable_keys_sorted:
  "reachable s \<Longrightarrow> keys_sorted s"
proof (induction rule: reachable.induct)
  case r_init
  show ?case by (simp add: keys_sorted_def LibManager_def)
next
  case (r_clear s)
  then show ?case by (simp add: sorted_clear)
next
  case (r_add s lib d p e s')
  then show ?case using sorted_add by blast
next
  case (r_load s mc p cfg e s')
  then show ?case using sorted_load by blast
next
  case (r_acquire s n h s')
  then show ?case using sorted_acquire by blast
next
  case (r_release s n e s')
  then show ?case using sorted_release by blast
next
  case (r_unload s n e s')
  then show ?case using sorted_unload by blast
next
  case (r_getAll s l l' s')
  then show ?case using sorted_getAll by blast
next
  case (r_config s mc f ps s')
  then show ?case using sorted_config by blast
next
  case (r_add_throw s lib d p s')
  then show ?case using sorted_add by blast
next
  case (r_load_throw s mc p cfg s')
  then show ?case using sorted_load by blast
next
  case (r_acquire_throw s n s')
  then show ?case using sorted_acquire by blast
next
  case (r_release_throw s n s')
  then show ?case using sorted_release by blast
next
  case (r_unload_throw s n s')
  then show ?case using sorted_unload by blast
next
  case (r_getAll_throw s l s')
  then show ?case using sorted_getAll by blast
next
  case (r_config_throw s mc f s')
  then show ?case using sorted_config by blast
qed

subsection \<open>A reachable state\<close>

lemma reachable_state_A: "reachable state_A"
proof -
  have "addLibrary (Some lib_A) (Some 7) ''a.so'' LibManager = Returns LIBMGR_NO_ERROR state_A"
    by (simp add: addLibrary_def LibManager_def state_A_def lib_A_def libStruct_of_def
        map_find_def)
  with r_init show ?thesis by (rule r_add)
qed

lemma reachable_state_A2: "reachable state_A2"
proof -
  have "acquireLibrary ''A'' state_A = Returns (Some lib_A) state_A2"
    by (simp add: acquireLibrary_def state_A_def state_A2_def map_find_def INT_MAX_def)
  with reachable_state_A show ?thesis by (rule r_acquire)
qed


subsection \<open>addLibrary\<close>

text \<open>
  C2: \<open>addLibrary\<close> on a library whose name already has an entry returns
  \<open>LIBMGR_ERR_LIBNAME_EXISTS\<close>. The map is the one before the call, so no entry is added
  and the entry of that name is the first one, with its \<open>useCount\<close>; the state differs only
  by the call of \<open>createModuleInfo\<close> on the rejected library.
\<close>

theorem addLibrary_name_conflict:
  assumes "map_find (getLibName i) (libMap s) = Some v"
  shows "addLibrary (Some i) d p s =
           Returns LIBMGR_ERR_LIBNAME_EXISTS (s\<lparr>calls := calls s @ [CreateModuleInfo i]\<rparr>)
         \<and> libMap (s\<lparr>calls := calls s @ [CreateModuleInfo i]\<rparr>) = libMap s
         \<and> map_find (getLibName i) (libMap (s\<lparr>calls := calls s @ [CreateModuleInfo i]\<rparr>)) = Some v"
  using assms by (simp add: addLibrary_def Let_def)

theorem addLibrary_name_conflict_witness:
  "map_find (getLibName (LibInterface 2 ''A''))
     (libMap \<lparr>libMap = [(''A'', libStruct_of (Some (LibInterface 1 ''A'')))], calls = []\<rparr>)
     = Some (libStruct_of (Some (LibInterface 1 ''A'')))
   \<and> addLibrary (Some (LibInterface 2 ''A'')) (Some 7) ''a.so''
        \<lparr>libMap = [(''A'', libStruct_of (Some (LibInterface 1 ''A'')))], calls = []\<rparr>
      = Returns LIBMGR_ERR_LIBNAME_EXISTS
          \<lparr>libMap = [(''A'', libStruct_of (Some (LibInterface 1 ''A'')))],
           calls = [CreateModuleInfo (LibInterface 2 ''A'')]\<rparr>"
  using addLibrary_name_conflict
    [of "LibInterface 2 ''A''"
        "\<lparr>libMap = [(''A'', libStruct_of (Some (LibInterface 1 ''A'')))], calls = []\<rparr>"
        "libStruct_of (Some (LibInterface 1 ''A''))" "Some 7" "''a.so''"]
  by (simp add: map_find_def)



lemma notify_eq:
  "list_all entry_ok m \<Longrightarrow>
   notify name m =
     Some (map (\<lambda>(k, v). NewLibLoaded (the (libInterface v)) name)
            (filter (\<lambda>(k, v). k \<noteq> name) m))"
  by (induction m) (auto simp: entry_ok_def split: option.splits)

lemma set_map_assign:
  "map_find k m = None \<Longrightarrow> set (map_assign k v m) = insert (k, v) (set m)"
  by (induction m) (auto simp: map_find_def split: if_splits)

lemma count_map_assign:
  "map_find k m = None \<Longrightarrow>
   count_list (map f (filter P (map_assign k v m))) x =
     count_list (map f (filter P m)) x + (if P (k, v) \<and> f (k, v) = x then 1 else 0)"
  by (induction m) (auto simp: map_find_def split: if_splits)

lemma map_find_assign:
  "map_find k (map_assign k' v m) = (if k = k' then Some v else map_find k m)"
  by (induction m) (auto simp: map_find_def)

lemma no_entry_of:
  "list_all entry_ok m \<Longrightarrow> map_find (getLibName a) m = None \<Longrightarrow> (k, v) \<in> set m \<Longrightarrow>
   libInterface v \<noteq> Some a"
  by (induction m) (auto simp: map_find_def entry_ok_def split: if_splits option.splits)

lemma addLibrary_new:
  fixes d p
  assumes "manager_inv s" "map_find (getLibName i) (libMap s) = None"
  defines "m \<equiv> map_assign (getLibName i) ((libStruct_of (Some i))\<lparr>destroy := d, path := p\<rparr>) (libMap s)"
  shows "addLibrary (Some i) d p s =
           Returns LIBMGR_NO_ERROR
             (s\<lparr>libMap := m,
                calls := calls s @ CreateModuleInfo i #
                  map (\<lambda>(k, v). NewLibLoaded (the (libInterface v)) (getLibName i))
                    (filter (\<lambda>(k, v). k \<noteq> getLibName i) m)\<rparr>)"
proof -
  have "entry_ok (getLibName i, (libStruct_of (Some i))\<lparr>destroy := d, path := p\<rparr>)"
    by (simp add: entry_ok_def libStruct_of_def INT_MAX_def)
  with assms(1) have "list_all entry_ok m"
    by (simp add: m_def manager_inv_def map_assign_ok)
  from notify_eq [OF this] assms(2) show ?thesis
    by (simp add: addLibrary_def Let_def m_def)
qed

lemma sorted_find_None:
  "sorted_wrt (<) (map fst m) \<Longrightarrow> \<forall>x \<in> set m. k < fst x \<Longrightarrow> map_find k m = None"
  by (induction m) (auto simp: map_find_def)

lemma count_registered:
  assumes "list_all entry_ok m" "sorted_wrt (<) (map fst m)"
    and "map_find (getLibName a) m = Some v" "libInterface v = Some a"
    and "name \<noteq> getLibName a"
  shows "count_list (map (\<lambda>(k, v). NewLibLoaded (the (libInterface v)) name)
                      (filter (\<lambda>(k, v). k \<noteq> name) m))
           (NewLibLoaded a name) = 1"
  using assms(1,2,3)
proof (induction m)
  case Nil
  then show ?case by (simp add: map_find_def)
next
  case (Cons e m)
  obtain k v' where e: "e = (k, v')" by (cases e)
  from Cons.prems e have ok: "entry_ok (k, v')" and okm: "list_all entry_ok m"
    and sm: "sorted_wrt (<) (map fst m)" and lt: "\<forall>x \<in> set m. k < fst x"
    by auto
  let ?f = "\<lambda>(k, v). NewLibLoaded (the (libInterface v)) name"
  let ?P = "\<lambda>(k, v). k \<noteq> name"
  show ?case
  proof (cases "k = getLibName a")
    case True
    with Cons.prems(3) e have v': "v' = v" by (simp add: map_find_def)
    from True sm lt have "map_find (getLibName a) m = None" by (simp add: sorted_find_None)
    then have "\<And>k2 v2. (k2, v2) \<in> set m \<Longrightarrow> libInterface v2 \<noteq> Some a"
      using no_entry_of [OF okm] by blast
    moreover have "\<And>k2 v2. (k2, v2) \<in> set m \<Longrightarrow> \<exists>i. libInterface v2 = Some i"
      using okm by (auto simp: list_all_iff entry_ok_def split: option.splits)
    ultimately have "count_list (map ?f (filter ?P m)) (NewLibLoaded a name) = 0"
      by (fastforce simp: count_list_0_iff)
    with True e v' assms(4,5) show ?thesis by simp
  next
    case False
    with Cons.prems(3) e have "map_find (getLibName a) m = Some v" by (simp add: map_find_def)
    from Cons.IH [OF okm sm this]
    have ih: "count_list (map ?f (filter ?P m)) (NewLibLoaded a name) = 1" .
    from ok False have "libInterface v' \<noteq> Some a"
      by (auto simp: entry_ok_def)
    moreover from ok obtain i where "libInterface v' = Some i"
      by (auto simp: entry_ok_def split: option.splits)
    ultimately show ?thesis using e ih by auto
  qed
qed


text \<open>
  C7: take a reachable state in which the library \<open>a\<close> is registered, with any number of
  users, and the name of \<open>b\<close> is free. \<open>addLibrary\<close> of \<open>b\<close> returns \<open>LIBMGR_NO_ERROR\<close>, and among
  the calls it makes on libraries there is exactly one \<open>newLibLoaded\<close> on \<open>a\<close> with the name of
  \<open>b\<close>, no other \<open>newLibLoaded\<close> on \<open>a\<close>, none on \<open>b\<close> (the new library hears nothing of those
  registered before it), and none on any library with that library's own name. After the
  call \<open>b\<close> is registered as \<open>a\<close> was, so the same holds for the next library.
\<close>

theorem addLibrary_notifies_registered:
  fixes db :: "destroyLib option" and pb :: string
  assumes "reachable s"
    and "map_find (getLibName a) (libMap s) = Some v" "libInterface v = Some a"
    and "map_find (getLibName b) (libMap s) = None"
  defines "m \<equiv> map_assign (getLibName b)
                 ((libStruct_of (Some b))\<lparr>destroy := db, path := pb\<rparr>) (libMap s)"
  shows "\<exists>ns. addLibrary (Some b) db pb s =
                Returns LIBMGR_NO_ERROR (s\<lparr>libMap := m, calls := calls s @ ns\<rparr>)
           \<and> count_list ns (NewLibLoaded a (getLibName b)) = 1
           \<and> (\<forall>n. NewLibLoaded a n \<in> set ns \<longrightarrow> n = getLibName b)
           \<and> (\<forall>n. NewLibLoaded b n \<notin> set ns)
           \<and> (\<forall>x. NewLibLoaded x (getLibName x) \<notin> set ns)
           \<and> map_find (getLibName b) m =
               Some ((libStruct_of (Some b))\<lparr>destroy := db, path := pb\<rparr>)
           \<and> libInterface ((libStruct_of (Some b))\<lparr>destroy := db, path := pb\<rparr>) = Some b"
proof -
  let ?newB = "(libStruct_of (Some b))\<lparr>destroy := db, path := pb\<rparr>"
  let ?m0 = "libMap s"
  let ?f = "\<lambda>(k, v). NewLibLoaded (the (libInterface v)) (getLibName b)"
  let ?P = "\<lambda>(k, v). k \<noteq> getLibName b"
  let ?ns2 = "map ?f (filter ?P m)"
  let ?ns = "CreateModuleInfo b # ?ns2"
  from assms(1) have inv0: "manager_inv s" by (rule reachable_inv)
  then have ok0: "list_all entry_ok ?m0" by (simp add: manager_inv_def)
  from assms(1) have srt: "sorted_wrt (<) (map fst ?m0)"
    using reachable_keys_sorted by (simp add: keys_sorted_def)
  from assms(2,4) have ne: "getLibName b \<noteq> getLibName a" by auto
  have add: "addLibrary (Some b) db pb s =
               Returns LIBMGR_NO_ERROR (s\<lparr>libMap := m, calls := calls s @ ?ns\<rparr>)"
    using addLibrary_new [OF inv0 assms(4), of db pb] by (simp add: m_def)
  have set2: "set m = insert (getLibName b, ?newB) (set ?m0)"
    unfolding m_def using assms(4) by (rule set_map_assign)
  have noB: "\<And>k v. (k, v) \<in> set ?m0 \<Longrightarrow> libInterface v \<noteq> Some b"
    using no_entry_of [OF ok0 assms(4)] by blast
  have int0: "\<And>k v. (k, v) \<in> set ?m0 \<Longrightarrow> \<exists>i. libInterface v = Some i \<and> getLibName i = k"
    using ok0 by (auto simp: list_all_iff entry_ok_def split: option.splits)
  have c0: "count_list (map ?f (filter ?P ?m0)) (NewLibLoaded a (getLibName b)) = 1"
    using count_registered [OF ok0 srt assms(2,3) ne] .
  have c2: "count_list ?ns2 (NewLibLoaded a (getLibName b)) = 1"
    using c0 by (simp add: m_def count_map_assign [OF assms(4)])
  have cnt: "count_list ?ns (NewLibLoaded a (getLibName b)) = 1"
    using c2 by simp
  have onlyB: "\<forall>n. NewLibLoaded a n \<in> set ?ns \<longrightarrow> n = getLibName b"
    by auto
  have notB: "\<forall>n. NewLibLoaded b n \<notin> set ?ns"
    using set2 noB int0 by (fastforce simp: libStruct_of_def)
  have notSelf: "\<forall>x. NewLibLoaded x (getLibName x) \<notin> set ?ns"
    using set2 int0 by (fastforce simp: libStruct_of_def)
  have reg: "map_find (getLibName b) m = Some ?newB" "libInterface ?newB = Some b"
    by (simp_all add: m_def map_find_assign libStruct_of_def)
  from add cnt onlyB notB notSelf reg show ?thesis by blast
qed

theorem addLibrary_notifies_registered_witness:
  "reachable state_A2
   \<and> map_find (getLibName lib_A) (libMap state_A2) =
       Some \<lparr>libInterface = Some lib_A, destroy = Some 7, useCount = 2,
             wasUnloaded = False, path = ''a.so''\<rparr>
   \<and> map_find (getLibName (LibInterface 2 ''B'')) (libMap state_A2) = None
   \<and> addLibrary (Some (LibInterface 2 ''B'')) None [] state_A2
       = Returns LIBMGR_NO_ERROR
           \<lparr>libMap = [(''A'', \<lparr>libInterface = Some lib_A, destroy = Some 7, useCount = 2,
                               wasUnloaded = False, path = ''a.so''\<rparr>),
                      (''B'', libStruct_of (Some (LibInterface 2 ''B'')))],
            calls = [CreateModuleInfo lib_A,
                     CreateModuleInfo (LibInterface 2 ''B''),
                     NewLibLoaded lib_A ''B'']\<rparr>
   \<and> count_list [CreateModuleInfo (LibInterface 2 ''B''), NewLibLoaded lib_A ''B'']
        (NewLibLoaded lib_A (getLibName (LibInterface 2 ''B''))) = 1"
proof -
  let ?b = "LibInterface 2 ''B''"
  let ?v = "\<lparr>libInterface = Some lib_A, destroy = Some 7, useCount = 2,
             wasUnloaded = False, path = ''a.so''\<rparr>"
  let ?s2 = "\<lparr>libMap = [(''A'', ?v), (''B'', libStruct_of (Some ?b))],
             calls = [CreateModuleInfo lib_A, CreateModuleInfo ?b, NewLibLoaded lib_A ''B'']\<rparr>"
  have h2: "map_find (getLibName lib_A) (libMap state_A2) = Some ?v"
    and h3: "libInterface ?v = Some lib_A"
    and h4: "map_find (getLibName ?b) (libMap state_A2) = None"
    by (simp_all add: state_A2_def lib_A_def map_find_def)
  have e: "addLibrary (Some ?b) None [] state_A2 = Returns LIBMGR_NO_ERROR ?s2"
    by (simp add: addLibrary_def state_A2_def lib_A_def map_find_def libStruct_of_def Let_def)
  from addLibrary_notifies_registered [OF reachable_state_A2 h2 h3 h4, of None "[]"]
  obtain ns where
    "addLibrary (Some ?b) None [] state_A2 =
       Returns LIBMGR_NO_ERROR
         (state_A2\<lparr>libMap := map_assign (getLibName ?b)
                      ((libStruct_of (Some ?b))\<lparr>destroy := None, path := []\<rparr>) (libMap state_A2),
                    calls := calls state_A2 @ ns\<rparr>)"
    "count_list ns (NewLibLoaded lib_A (getLibName ?b)) = 1"
    by blast
  with e have "count_list [CreateModuleInfo ?b, NewLibLoaded lib_A ''B'']
                 (NewLibLoaded lib_A (getLibName ?b)) = 1"
    by (simp add: state_A2_def)
  with reachable_state_A2 h2 h4 e show ?thesis by simp
qed

subsection \<open>acquireLibrary, releaseLibrary, unloadLibrary\<close>

lemma acquire_release_known:
  assumes "map_find n (libMap s) = Some v" "1 \<le> useCount v" "useCount v \<noteq> INT_MAX"
  shows "acquireLibrary n s = Returns (libInterface v)
           (s\<lparr>libMap := map_modify n (\<lambda>l. l\<lparr>useCount := useCount l + 1\<rparr>) (libMap s)\<rparr>)
         \<and> releaseLibrary n
             (s\<lparr>libMap := map_modify n (\<lambda>l. l\<lparr>useCount := useCount l + 1\<rparr>) (libMap s)\<rparr>)
           = Returns LIBMGR_NO_ERROR s"
proof -
  let ?s1 = "s\<lparr>libMap := map_modify n (\<lambda>l. l\<lparr>useCount := useCount l + 1\<rparr>) (libMap s)\<rparr>"
  from assms have a: "acquireLibrary n s = Returns (libInterface v) ?s1"
    by (simp add: acquireLibrary_def)
  from assms have f: "map_find n (libMap ?s1) = Some (v\<lparr>useCount := useCount v + 1\<rparr>)"
    by (simp add: map_find_modify)
  have "map_modify n (\<lambda>l. l\<lparr>useCount := useCount l - 1\<rparr>) (libMap ?s1) = libMap s"
    using assms(1) by (simp add: map_modify_modify map_modify_same)
  with f assms(2) have "releaseLibrary n ?s1 = Returns LIBMGR_NO_ERROR s"
    by (simp add: releaseLibrary_def INT_MIN_def Let_def)
  with a show ?thesis by simp
qed

lemma acquire_release_unknown:
  assumes "map_find n (libMap s) = None"
  shows "acquireLibrary n s = Returns None s
         \<and> releaseLibrary n s = Returns LIBMGR_ERR_NO_LIBRARY s"
  using assms by (simp add: acquireLibrary_def releaseLibrary_def)

text \<open>
  C3: in a reachable state, for every name \<open>n\<close> whose count is not \<open>INT_MAX\<close> (where the
  increment would overflow), \<open>acquireLibrary(n)\<close> returns; after it the count of \<open>n\<close> is one
  more, and \<open>releaseLibrary(n)\<close> right after returns with the state the manager had before
  the pair: the count of \<open>n\<close> is what it was, the entry is in the map and no destroy
  function has been called. For a name without an entry both calls leave the state alone.
\<close>

theorem acquire_release_restores:
  assumes "reachable s" "refCount n s \<noteq> Some INT_MAX"
  shows "\<exists>h s1. acquireLibrary n s = Returns h s1
           \<and> refCount n s1 = map_option (\<lambda>c. c + 1) (refCount n s)
           \<and> releaseLibrary n s1 =
               Returns (if map_find n (libMap s) = None then LIBMGR_ERR_NO_LIBRARY
                        else LIBMGR_NO_ERROR) s"
proof (cases "map_find n (libMap s)")
  case None
  with acquire_release_unknown [OF None] show ?thesis
    by (simp add: refCount_def)
next
  case (Some v)
  from assms(1) have "manager_inv s" by (rule reachable_inv)
  with Some have "entry_ok (n, v)" by (auto simp: manager_inv_def dest: map_find_entry_ok)
  then have c: "1 \<le> useCount v" by (simp add: entry_ok_def)
  from Some assms(2) have "useCount v \<noteq> INT_MAX" by (simp add: refCount_def)
  from acquire_release_known [OF Some c this] Some show ?thesis
    by (simp add: refCount_def map_find_modify)
qed

theorem acquire_release_restores_witness:
  "reachable state_A2
   \<and> refCount ''A'' state_A2 = Some 2
   \<and> Some (2::int) \<noteq> Some INT_MAX
   \<and> acquireLibrary ''A'' state_A2 = Returns (Some lib_A)
        (state_A2\<lparr>libMap := [(''A'', \<lparr>libInterface = Some lib_A, destroy = Some 7, useCount = 3,
                          wasUnloaded = False, path = ''a.so''\<rparr>)]\<rparr>)
   \<and> refCount ''A''
        (state_A2\<lparr>libMap := [(''A'', \<lparr>libInterface = Some lib_A, destroy = Some 7, useCount = 3,
                          wasUnloaded = False, path = ''a.so''\<rparr>)]\<rparr>) = Some 3
   \<and> releaseLibrary ''A''
        (state_A2\<lparr>libMap := [(''A'', \<lparr>libInterface = Some lib_A, destroy = Some 7, useCount = 3,
                          wasUnloaded = False, path = ''a.so''\<rparr>)]\<rparr>)
      = Returns LIBMGR_NO_ERROR state_A2"
proof -
  let ?s3 = "state_A2\<lparr>libMap := [(''A'', \<lparr>libInterface = Some lib_A, destroy = Some 7,
                 useCount = 3, wasUnloaded = False, path = ''a.so''\<rparr>)]\<rparr>"
  have r: "refCount ''A'' state_A2 = Some 2"
    by (simp add: refCount_def state_A2_def map_find_def)
  have ne: "Some (2::int) \<noteq> Some INT_MAX" by (simp add: INT_MAX_def)
  with r have h: "refCount ''A'' state_A2 \<noteq> Some INT_MAX" by simp
  have a: "acquireLibrary ''A'' state_A2 = Returns (Some lib_A) ?s3"
    by (simp add: acquireLibrary_def state_A2_def map_find_def INT_MAX_def)
  have f: "map_find ''A'' (libMap state_A2) \<noteq> None"
    by (simp add: state_A2_def map_find_def)
  from acquire_release_restores [OF reachable_state_A2 h] obtain h' s1 where
    "acquireLibrary ''A'' state_A2 = Returns h' s1"
    "refCount ''A'' s1 = map_option (\<lambda>c. c + 1) (refCount ''A'' state_A2)"
    "releaseLibrary ''A'' s1 =
       Returns (if map_find ''A'' (libMap state_A2) = None then LIBMGR_ERR_NO_LIBRARY
                else LIBMGR_NO_ERROR) state_A2"
    by blast
  with a f r have "refCount ''A'' ?s3 = Some 3"
    "releaseLibrary ''A'' ?s3 = Returns LIBMGR_NO_ERROR state_A2"
    by simp_all
  with reachable_state_A2 r ne a show ?thesis by simp
qed

text \<open>
  C4: \<open>releaseLibrary\<close> on an entry whose \<open>useCount\<close> is 1 returns \<open>LIBMGR_NO_ERROR\<close>; the
  entry is erased and the destroy function, when the entry has one, is called once on the
  entry's library. In the state it leaves, \<open>releaseLibrary\<close> and \<open>unloadLibrary\<close> on that
  name return \<open>LIBMGR_ERR_NO_LIBRARY\<close> and \<open>acquireLibrary\<close> returns the null pointer, each
  leaving the state as it is, so that every later such call does the same.
\<close>

theorem release_last_reference:
  assumes "map_find n (libMap s) = Some v" "useCount v = 1"
  defines "s' \<equiv> s\<lparr>libMap := map_erase n (libMap s),
                    calls := calls s @
                      (case destroy v of None \<Rightarrow> [] | Some d \<Rightarrow> [Destroy d (libInterface v)])\<rparr>"
  shows "releaseLibrary n s = Returns LIBMGR_NO_ERROR s'
         \<and> map_find n (libMap s') = None
         \<and> releaseLibrary n s' = Returns LIBMGR_ERR_NO_LIBRARY s'
         \<and> acquireLibrary n s' = Returns None s'
         \<and> unloadLibrary n s' = Returns LIBMGR_ERR_NO_LIBRARY s'"
proof -
  let ?m = "map_modify n (\<lambda>l. l\<lparr>useCount := useCount l - 1\<rparr>) (libMap s)"
  from assms(1,2) have "map_find n ?m = Some (v\<lparr>useCount := 0\<rparr>)"
    by (simp add: map_find_modify)
  with assms(1,2) have "releaseLibrary n s = Returns LIBMGR_NO_ERROR s'"
    by (simp add: s'_def releaseLibrary_def unloadLibrary_def INT_MIN_def Let_def
        map_erase_modify destroy_calls_def split: option.splits)
  moreover have "map_find n (libMap s') = None"
    by (simp add: s'_def map_find_erase)
  ultimately show ?thesis
    by (simp add: releaseLibrary_def acquireLibrary_def unloadLibrary_def)
qed

theorem release_last_reference_witness:
  "map_find ''A'' (libMap state_A) =
     Some \<lparr>libInterface = Some lib_A, destroy = Some 7, useCount = 1,
           wasUnloaded = False, path = ''a.so''\<rparr>
   \<and> releaseLibrary ''A'' state_A =
       Returns LIBMGR_NO_ERROR
         \<lparr>libMap = [], calls = [CreateModuleInfo lib_A, Destroy 7 (Some lib_A)]\<rparr>
   \<and> acquireLibrary ''A''
         \<lparr>libMap = [], calls = [CreateModuleInfo lib_A, Destroy 7 (Some lib_A)]\<rparr> =
       Returns None \<lparr>libMap = [], calls = [CreateModuleInfo lib_A, Destroy 7 (Some lib_A)]\<rparr>"
  using release_last_reference [of "''A''" state_A
      "\<lparr>libInterface = Some lib_A, destroy = Some 7, useCount = 1,
           wasUnloaded = False, path = ''a.so''\<rparr>"]
  by (auto simp: state_A_def map_find_def)

text \<open>
  C10: in a reachable state, \<open>unloadLibrary\<close> on an entry whose \<open>useCount\<close> is not 0 returns
  \<open>LIBMGR_ERR_LIB_IN_USE\<close> and the state is the one before the call: the entry, its count
  and the calls made on libraries are unchanged.
\<close>

theorem unloadLibrary_in_use:
  assumes "reachable s" "map_find n (libMap s) = Some v" "useCount v \<noteq> 0"
  shows "unloadLibrary n s = Returns LIBMGR_ERR_LIB_IN_USE s"
proof -
  from assms(1) have "manager_inv s" by (rule reachable_inv)
  with assms(2) have "entry_ok (n, v)" by (auto simp: manager_inv_def dest: map_find_entry_ok)
  then have "1 \<le> useCount v" by (simp add: entry_ok_def)
  with assms(2) show ?thesis by (simp add: unloadLibrary_def)
qed

theorem unloadLibrary_in_use_witness:
  "reachable state_A
   \<and> map_find ''A'' (libMap state_A) =
       Some \<lparr>libInterface = Some lib_A, destroy = Some 7, useCount = 1,
             wasUnloaded = False, path = ''a.so''\<rparr>
   \<and> unloadLibrary ''A'' state_A = Returns LIBMGR_ERR_LIB_IN_USE state_A"
proof -
  have f: "map_find ''A'' (libMap state_A) =
       Some \<lparr>libInterface = Some lib_A, destroy = Some 7, useCount = 1,
             wasUnloaded = False, path = ''a.so''\<rparr>"
    by (simp add: state_A_def map_find_def)
  from unloadLibrary_in_use [OF reachable_state_A f] reachable_state_A f
  show ?thesis by simp
qed

subsection \<open>The use count in reachable states\<close>

text \<open>
  C5: in every reachable state every entry of the map has a \<open>useCount\<close> of at least 1; no
  entry with \<open>useCount\<close> 0 is in the map between two calls.
\<close>

theorem reachable_useCount_positive:
  assumes "reachable s" "(k, v) \<in> set (libMap s)"
  shows "1 \<le> useCount v \<and> useCount v \<noteq> 0"
proof -
  from assms(1) have "list_all entry_ok (libMap s)"
    using reachable_inv by (simp add: manager_inv_def)
  with assms(2) have "entry_ok (k, v)" by (simp add: list_all_iff)
  then show ?thesis by (simp add: entry_ok_def)
qed

theorem reachable_useCount_positive_witness:
  "reachable state_A
   \<and> (''A'', \<lparr>libInterface = Some lib_A, destroy = Some 7, useCount = 1,
              wasUnloaded = False, path = ''a.so''\<rparr>) \<in> set (libMap state_A)
   \<and> (1::int) \<le> useCount \<lparr>libInterface = Some lib_A, destroy = Some 7, useCount = 1,
              wasUnloaded = False, path = ''a.so''\<rparr>"
proof -
  have m: "(''A'', \<lparr>libInterface = Some lib_A, destroy = Some 7, useCount = 1,
              wasUnloaded = False, path = ''a.so''\<rparr>) \<in> set (libMap state_A)"
    by (simp add: state_A_def)
  from reachable_useCount_positive [OF reachable_state_A m] reachable_state_A m
  show ?thesis by simp
qed

subsection \<open>loadLibrary\<close>












text \<open>
  C1 at the state \<open>state_A\<close> and the machine \<open>machine_A\<close>: \<open>addLibrary\<close> rejects the library
  the factory has made with \<open>LIBMGR_ERR_LIBNAME_EXISTS\<close>, and \<open>loadLibrary\<close> calls the destroy
  function on it and returns \<open>LIBMGR_NO_ERROR\<close>.
\<close>

theorem loadLibrary_conflict_reports_success:
  "addLibrary (Some (LibInterface 2 ''A'')) (Some 8) ''A'' state_A =
     Returns LIBMGR_ERR_LIBNAME_EXISTS
       (state_A\<lparr>calls := [CreateModuleInfo lib_A, CreateModuleInfo (LibInterface 2 ''A'')]\<rparr>)
   \<and> loadLibrary machine_A ''A'' None state_A =
     Returns LIBMGR_NO_ERROR
       (state_A\<lparr>calls := [CreateModuleInfo lib_A, CreateModuleInfo (LibInterface 2 ''A''),
                          Destroy 8 (Some (LibInterface 2 ''A''))]\<rparr>)"
  by (simp add: loadLibrary_def locate_def fopen_r_def instantiate_def machine_A_def
      prefix_def addLibrary_def state_A_def map_find_def Let_def)

subsection \<open>loadConfigFile\<close>

lemma fgets_read_line:
  "CHR 0x0A \<notin> set l \<Longrightarrow> length l < n \<Longrightarrow>
   fgets_read n (l @ CHR 0x0A # rest) = (l @ [CHR 0x0A], rest)"
proof (induction l arbitrary: n)
  case Nil
  then show ?case by (cases n) auto
next
  case (Cons a l)
  then show ?case by (cases n) auto
qed

lemma fgets_read_full:
  "CHR 0x0A \<notin> set l \<Longrightarrow> fgets_read (length l) (l @ rest) = (l, rest)"
  by (induction l) auto

lemma fgets_read_eof:
  "CHR 0x0A \<notin> set l \<Longrightarrow> length l \<le> n \<Longrightarrow> fgets_read n l = (l, [])"
proof (induction l arbitrary: n)
  case Nil
  then show ?case by (cases n) auto
next
  case (Cons a l)
  then show ?case by (cases n) auto
qed

lemma dropWhile_all:
  "\<forall>x \<in> set xs. P x \<Longrightarrow> dropWhile P xs = []"
  by (induction xs) auto

lemma takeWhile_length_less:
  "x \<in> set ys \<Longrightarrow> \<not> P x \<Longrightarrow> length (takeWhile P ys) < length ys"
  by (induction ys) auto

lemma trim_positions:
  assumes "\<not> (\<forall>c \<in> set p. W c)"
  shows "take (length p - 1 - length (takeWhile W (rev p)) - length (takeWhile W p) + 1)
           (drop (length (takeWhile W p)) p) =
         rev (dropWhile W (rev (dropWhile W p)))
         \<and> rev (dropWhile W (rev (dropWhile W p))) \<noteq> []"
proof -
  let ?a = "takeWhile W p" and ?xs = "dropWhile W p"
  from assms obtain x where x: "x \<in> set p" "\<not> W x" by blast
  have p: "p = ?a @ ?xs" by simp
  have "x \<notin> set ?a" using x(2) by (auto dest: set_takeWhileD)
  with x(1) p have xin: "x \<in> set ?xs" by (metis Un_iff set_append)
  then have xr: "x \<in> set (rev ?xs)" by simp
  have "rev p = rev ?xs @ rev ?a" by (metis p rev_append)
  then have tw: "takeWhile W (rev p) = takeWhile W (rev ?xs)"
    using takeWhile_append1 [of x "rev ?xs" W "rev ?a", OF xr x(2)] by simp
  let ?k = "length (takeWhile W (rev ?xs))"
  have k: "?k < length ?xs" using takeWhile_length_less [of x "rev ?xs" W, OF xr x(2)] by simp
  have ne: "dropWhile W (rev ?xs) \<noteq> []"
    using xr x(2) by (auto simp: dropWhile_eq_Nil_conv)
  have len: "length p = length ?a + length ?xs" by (metis p length_append)
  have n: "length p - 1 - ?k - length ?a + 1 = length ?xs - ?k" using k len by simp
  have d: "drop (length ?a) p = ?xs" by (simp add: dropWhile_eq_drop)
  have "rev (dropWhile W (rev ?xs)) = rev (drop ?k (rev ?xs))"
    by (simp add: dropWhile_eq_drop)
  also have "\<dots> = take (length ?xs - ?k) ?xs" by (simp add: rev_drop)
  finally have e: "rev (dropWhile W (rev ?xs)) = take (length ?xs - ?k) ?xs" .
  have first: "take (length p - 1 - length (takeWhile W (rev p)) - length ?a + 1)
                 (drop (length ?a) p) = rev (dropWhile W (rev ?xs))"
    by (simp only: tw d n e)
  have second: "rev (dropWhile W (rev ?xs)) \<noteq> []" using ne by simp
  from first second show ?thesis by (rule conjI)
qed

lemma plugin_of_newline: "plugin_of [CHR 0x0A] = None"
  by (simp add: plugin_of_def c_str_def find_first_not_of_def whitespace_def)


lemma blank_whitespace: "blank = (\<lambda>c. c \<in> set whitespace)"
  by (rule ext) (auto simp: blank_def whitespace_def)

lemma plugin_of_blank:
  assumes "CHR 0x00 \<notin> set p"
  shows "plugin_of p = (case entry_by blank p of [] \<Rightarrow> None | e # es \<Rightarrow> Some e)"
proof -
  let ?W = "\<lambda>c. c \<in> set whitespace"
  from assms have c: "c_str p = p" by (auto simp: c_str_def takeWhile_eq_all_conv)
  have tb: "trim_by blank p = rev (dropWhile ?W (rev (dropWhile ?W p)))"
    by (simp add: trim_by_def blank_whitespace)
  show ?thesis
  proof (cases "\<forall>c \<in> set p. ?W c")
    case True
    then have "trim_by blank p = []" by (simp add: tb dropWhile_all)
    with True c show ?thesis
      by (simp add: plugin_of_def entry_by_def find_first_not_of_def find_last_not_of_def)
  next
    case False
    from trim_positions [of p ?W, OF False]
    have t: "substr p (length (takeWhile ?W p))
               (length p - 1 - length (takeWhile ?W (rev p)) - length (takeWhile ?W p) + 1)
             = trim_by blank p"
      and "trim_by blank p \<noteq> []"
      by (simp_all add: substr_def tb)
    then obtain x xs where "trim_by blank p = x # xs" by (cases "trim_by blank p") auto
    with False c t show ?thesis
      by (auto simp: plugin_of_def entry_by_def find_first_not_of_def find_last_not_of_def
          Let_def first_char_def)
  qed
qed

lemma trim_by_newline:
  "trim_by blank (l @ [CHR 0x0A]) = trim_by blank l"
proof (cases "\<forall>c \<in> set l. blank c")
  case True
  have nl: "blank (CHR 0x0A)" by (simp add: blank_def)
  from True have "dropWhile blank l = []" by (rule dropWhile_all)
  moreover from True nl have "dropWhile blank (l @ [CHR 0x0A]) = []"
    by (intro dropWhile_all) simp
  ultimately show ?thesis by (simp only: trim_by_def)
next
  case False
  then obtain x where "x \<in> set l" "\<not> blank x" by blast
  then have "dropWhile blank (l @ [CHR 0x0A]) = dropWhile blank l @ [CHR 0x0A]"
    by (rule dropWhile_append1)
  then show ?thesis by (simp add: trim_by_def) (simp add: blank_def)
qed

lemma load_args_unfold:
  "fgets maxChars stream = Some (buf, rest) \<Longrightarrow>
   load_args stream = (case plugin_of buf of None \<Rightarrow> [] | Some p \<Rightarrow> [p]) @ load_args rest"
  by (subst load_args.simps) (simp split: option.splits)

lemma load_args_eof: "load_args [] = []"
  by (subst load_args.simps) (simp add: fgets_def)

lemma load_args_newline: "load_args (CHR 0x0A # rest) = load_args rest"
proof -
  have "fgets maxChars (CHR 0x0A # rest) = Some ([CHR 0x0A], rest)"
    using fgets_read_line [of "[]" 254 rest] by (simp add: fgets_def maxChars_def)
  from load_args_unfold [OF this] show ?thesis
    by (simp add: plugin_of_newline)
qed

lemma load_args_line:
  assumes "length l < maxChars" "CHR 0x0A \<notin> set l" "CHR 0x00 \<notin> set l"
  shows "load_args (l @ CHR 0x0A # rest) = entry_by blank l @ load_args rest"
proof (cases "length l < 254")
  case True
  with assms(2) have "fgets_read 254 (l @ CHR 0x0A # rest) = (l @ [CHR 0x0A], rest)"
    by (simp add: fgets_read_line)
  then have "fgets maxChars (l @ CHR 0x0A # rest) = Some (l @ [CHR 0x0A], rest)"
    by (simp add: fgets_def maxChars_def)
  from load_args_unfold [OF this] plugin_of_blank [of "l @ [CHR 0x0A]"] assms(3)
  show ?thesis
    by (simp add: entry_by_def trim_by_newline split: list.splits)
next
  case False
  with assms(1) have len: "length l = 254" by (simp add: maxChars_def)
  from fgets_read_full [OF assms(2), of "CHR 0x0A # rest"] len
  have "fgets_read 254 (l @ CHR 0x0A # rest) = (l, CHR 0x0A # rest)" by simp
  then have "fgets maxChars (l @ CHR 0x0A # rest) = Some (l, CHR 0x0A # rest)"
    by (simp add: fgets_def maxChars_def)
  from load_args_unfold [OF this] plugin_of_blank [OF assms(3)]
  show ?thesis
    by (simp add: entry_by_def load_args_newline split: list.splits)
qed

lemma load_args_last:
  assumes "length l < maxChars" "CHR 0x0A \<notin> set l" "CHR 0x00 \<notin> set l"
  shows "load_args l = entry_by blank l"
proof (cases "l = []")
  case True
  then show ?thesis
    by (simp add: load_args_eof entry_by_def trim_by_def)
next
  case False
  from assms(1,2) have "fgets_read 254 l = (l, [])"
    by (simp add: fgets_read_eof maxChars_def)
  with False have "fgets maxChars l = Some (l, [])"
    by (simp add: fgets_def maxChars_def)
  from load_args_unfold [OF this] plugin_of_blank [OF assms(3)] show ?thesis
    by (simp add: entry_by_def load_args_eof split: list.splits)
qed

lemma fgets_read_split:
  "fst (fgets_read n cs) @ snd (fgets_read n cs) = cs"
  by (induction n cs rule: fgets_read.induct) (auto split: prod.splits)

lemma fgets_read_append:
  "pre \<noteq> [] \<Longrightarrow> last pre = CHR 0x0A \<Longrightarrow>
   fgets_read n (pre @ rest) = (fst (fgets_read n pre), snd (fgets_read n pre) @ rest)"
proof (induction n pre rule: fgets_read.induct)
  case (1 cs)
  then show ?case by simp
next
  case (2 n)
  then show ?case by simp
next
  case (3 n c cs)
  show ?case
  proof (cases "c = CHR 0x0A")
    case True
    then show ?thesis by simp
  next
    case False
    with "3.prems" have "cs \<noteq> []" "last cs = CHR 0x0A" by (auto split: if_splits)
    with "3.IH" [OF False] False show ?thesis by (simp split: prod.splits)
  qed
qed

lemma fgets_read_rest_line:
  assumes "pre \<noteq> []" "last pre = CHR 0x0A"
  shows "snd (fgets_read n pre) = [] \<or> last (snd (fgets_read n pre)) = CHR 0x0A"
proof (cases "snd (fgets_read n pre) = []")
  case True
  then show ?thesis by simp
next
  case False
  have "last (fst (fgets_read n pre) @ snd (fgets_read n pre)) = last (snd (fgets_read n pre))"
    using False by simp
  with assms(2) show ?thesis by (simp add: fgets_read_split)
qed

lemma load_args_append:
  "pre = [] \<or> last pre = CHR 0x0A \<Longrightarrow> load_args (pre @ rest) = load_args pre @ load_args rest"
proof (induction pre rule: load_args.induct)
  case (1 pre)
  show ?case
  proof (cases "pre = []")
    case True
    then show ?thesis by (simp add: load_args_eof)
  next
    case False
    with "1.prems" have nl: "last pre = CHR 0x0A" by simp
    let ?buf = "fst (fgets_read 254 pre)" and ?r = "snd (fgets_read 254 pre)"
    from False have g: "fgets maxChars pre = Some (?buf, ?r)"
      by (simp add: fgets_def maxChars_def)
    from False fgets_read_append [OF False nl, of 254 rest]
    have g2: "fgets maxChars (pre @ rest) = Some (?buf, ?r @ rest)"
      by (simp add: fgets_def maxChars_def)
    have r: "?r = [] \<or> last ?r = CHR 0x0A" using False nl by (rule fgets_read_rest_line)
    have ih: "load_args (?r @ rest) = load_args ?r @ load_args rest"
    proof (cases "plugin_of ?buf")
      case None
      from "1.IH"(1) [OF g refl None r] show ?thesis .
    next
      case (Some p)
      from "1.IH"(2) [OF g refl Some r] show ?thesis .
    qed
    from load_args_unfold [OF g] load_args_unfold [OF g2] ih show ?thesis by simp
  qed
qed

lemma loop_load_args:
  "manager_inv s \<Longrightarrow>
   \<exists>s'. loadConfig_loop mc stream s = Returns (load_args stream) s' \<and> manager_inv s'"
proof (induction stream arbitrary: s rule: load_args.induct)
  case (1 stream)
  show ?case
  proof (cases "fgets maxChars stream")
    case None
    then have "loadConfig_loop mc stream s = Returns [] s"
      by (subst loadConfig_loop.simps) simp
    moreover from None have "load_args stream = []"
      by (subst load_args.simps) simp
    ultimately show ?thesis using "1.prems" by simp
  next
    case (Some br)
    obtain buf rest where br: "br = (buf, rest)" by (cases br)
    show ?thesis
    proof (cases "plugin_of buf")
      case None
      with Some br have "loadConfig_loop mc stream s = loadConfig_loop mc rest s"
        by (subst loadConfig_loop.simps) simp
      moreover from None Some br have "load_args stream = load_args rest"
        by (subst load_args.simps) simp
      ultimately show ?thesis
        using "1.IH"(1) [OF Some br [symmetric] None "1.prems"] by simp
    next
      case pp: (Some p)
      from inv_load_returns [OF "1.prems"] obtain e s1 where
        l: "loadLibrary mc p None s = Returns e s1" and i1: "manager_inv s1" by blast
      from "1.IH"(2) [OF Some br [symmetric] pp i1] obtain s2 where
        r: "loadConfig_loop mc rest s1 = Returns (load_args rest) s2" and i2: "manager_inv s2"
        by blast
      from Some br pp l r have "loadConfig_loop mc stream s = Returns (p # load_args rest) s2"
        by (subst loadConfig_loop.simps) simp
      moreover from Some br pp have "load_args stream = p # load_args rest"
        by (subst load_args.simps) simp
      ultimately show ?thesis using i2 by simp
    qed
  qed
qed

text \<open>
  C8, as the code has it: take any file and any line \<open>l\<close> of it (the text before it is empty
  or ends with a newline, the text after it is empty or starts with one) that is shorter
  than the buffer of \<open>maxChars\<close> bytes and has no NUL byte. In a reachable state
  \<open>loadConfigFile\<close> returns, and the calls of \<open>loadLibrary\<close> it has made are those for the
  text before the line, then one call on the whole line trimmed of leading and trailing
  spaces, tabs, line feeds and carriage returns (no call when nothing is left or it starts
  with \<open>#\<close>), then those for the text after the line. The other lines may have any length.
\<close>

theorem loadConfigFile_line:
  assumes "reachable s"
    and "files mc config_file = Some (pre @ l @ post)"
    and "pre = [] \<or> last pre = CHR 0x0A"
    and "post = [] \<or> hd post = CHR 0x0A"
    and "length l < maxChars" "CHR 0x0A \<notin> set l" "CHR 0x00 \<notin> set l"
  shows "\<exists>s'. loadConfigFile mc config_file s =
                Returns (load_args pre @ entry_by blank l @ load_args (tl post)) s'"
proof -
  from assms(1) have "manager_inv s" by (rule reachable_inv)
  from loop_load_args [OF this, of mc "pre @ l @ post"] assms(2)
  obtain s' where "loadConfigFile mc config_file s = Returns (load_args (pre @ l @ post)) s'"
    by (auto simp: loadConfigFile_def)
  moreover have "load_args (l @ post) = entry_by blank l @ load_args (tl post)"
  proof (cases post)
    case Nil
    with load_args_last [OF assms(5,6,7)] show ?thesis by (simp add: load_args_eof)
  next
    case (Cons c cs)
    with assms(4) have "c = CHR 0x0A" by simp
    with Cons load_args_line [OF assms(5,6,7), of cs] show ?thesis by simp
  qed
  ultimately show ?thesis using load_args_append [OF assms(3), of "l @ post"] by auto
qed

theorem loadConfigFile_line_witness:
  "reachable LibManager
   \<and> files machine_D ''plugins.txt'' =
       Some ((''#'' @ replicate 260 (CHR ''x'') @ [CHR 0x0A]) @ ''  A '' @ (CHR 0x0A # ''B''))
   \<and> last (''#'' @ replicate 260 (CHR ''x'') @ [CHR 0x0A]) = CHR 0x0A
   \<and> hd (CHR 0x0A # ''B'') = CHR 0x0A
   \<and> length ''  A '' < maxChars \<and> CHR 0x0A \<notin> set ''  A '' \<and> CHR 0x00 \<notin> set ''  A ''
   \<and> load_args (''#'' @ replicate 260 (CHR ''x'') @ [CHR 0x0A]) = [''xxxxxxx'']
   \<and> entry_by blank ''  A '' = [''A'']
   \<and> load_args (tl (CHR 0x0A # ''B'')) = [''B'']
   \<and> (\<exists>s'. loadConfigFile machine_D ''plugins.txt'' LibManager =
              Returns [''xxxxxxx'', ''A'', ''B''] s')"
proof -
  let ?pre = "''#'' @ replicate 260 (CHR ''x'') @ [CHR 0x0A]"
  have f: "files machine_D ''plugins.txt'' = Some (?pre @ ''  A '' @ (CHR 0x0A # ''B''))"
    by (simp add: machine_D_def)
  have p: "last ?pre = CHR 0x0A" by simp
  have q: "hd (CHR 0x0A # ''B'') = CHR 0x0A" by simp
  have b: "length ''  A '' < maxChars" "CHR 0x0A \<notin> set ''  A ''" "CHR 0x00 \<notin> set ''  A ''"
    by (simp_all add: maxChars_def)
  have c1: "load_args ?pre = [''xxxxxxx'']" by code_simp
  have c2: "entry_by blank ''  A '' = [''A'']" by code_simp
  have c3: "load_args (tl (CHR 0x0A # ''B'')) = [''B'']" by code_simp
  from loadConfigFile_line [OF r_init f disjI2 [OF p] disjI2 [OF q] b] c1 c2 c3
  have "\<exists>s'. loadConfigFile machine_D ''plugins.txt'' LibManager =
              Returns [''xxxxxxx'', ''A'', ''B''] s'"
    by simp
  with r_init f p q b c1 c2 c3 show ?thesis by blast
qed

text \<open>
  C8, as the claim has it, fails. For the file of one line of 300 letters, past the
  maximum the code documents, \<open>loadLibrary\<close> is called twice, on 254 and on 46 letters, and
  not once on the line. A form feed before a name is not trimmed, and a line with a NUL
  byte is cut there.
\<close>

theorem loadConfigFile_cap_counterexample:
  "loadConfigFile machine_C ''long.cfg'' LibManager =
     Returns [replicate 254 (CHR ''a''), replicate 46 (CHR ''a'')] LibManager
   \<and> entry_by is_space (replicate 300 (CHR ''a'')) = [replicate 300 (CHR ''a'')]
   \<and> loadConfigFile machine_C ''ff.cfg'' LibManager = Returns [[CHR 0x0C, CHR ''A'']] LibManager
   \<and> entry_by is_space ([CHR 0x0C] @ ''A'') = [''A'']
   \<and> loadConfigFile machine_C ''nul.cfg'' LibManager = Returns [''A''] LibManager
   \<and> entry_by is_space (''A'' @ [CHR 0x00] @ ''B'') = [''A'' @ [CHR 0x00] @ ''B'']"
  by code_simp

end
